theory Spec2Isabelle
  imports Complex_Main "HOL-Library.Multiset" "HOL-Library.List_Lexorder"
begin

section \<open>IIT 2.0 subsystem (pyphi/subsystem\_2\_0.py)\<close>

text \<open>
  Node indices are natural numbers and a tuple of node indices is a list. Python compares
  tuples lexicographically, a proper prefix being smaller; that is the order
  \<open>HOL-Library.List_Lexorder\<close> puts on lists, so \<open>sorted(parts)\<close> is \<open>sort\<close> on
  \<open>nat list list\<close>.

  Effective information is a float. The module only compares floats and divides one by
  an integer, so a float is a value of any linearly ordered type \<open>'v\<close> (the doubles
  without NaN, compared as Python compares them, are one) and the division is the
  parameter \<open>truediv\<close>: nothing is assumed about how it rounds.

  Every exception the module can raise by itself is a value of \<open>error\<close>: the
  \<open>assert\<close> of \<open>effective_information_partition\<close>, \<open>min\<close> of an empty sequence
  (\<open>ValueError\<close>), \<open>functools.reduce\<close> of an empty sequence (\<open>TypeError\<close>) and a
  division by a zero normalization. An exception raised inside the causal-model
  collaborator is \<open>CollaboratorError\<close>.
\<close>

datatype error = AssertionError | TypeError | ValueError | ZeroDivisionError | CollaboratorError

subsection \<open>class Partition\<close>

record Partition =
  parts :: "nat list list"

text \<open>\<open>Partition.__init__(self, *parts)\<close>: \<open>self.parts = tuple(sorted(parts))\<close>.\<close>

definition Partition_init :: "nat list list \<Rightarrow> Partition" where
  "Partition_init ps = \<lparr>parts = sort ps\<rparr>"

definition Partition_len :: "Partition \<Rightarrow> nat" where
  "Partition_len p = length (parts p)"

definition Partition_eq :: "Partition \<Rightarrow> Partition \<Rightarrow> bool" where
  "Partition_eq p other = (parts p = parts other)"

text \<open>
  \<open>__hash__\<close> is \<open>hash(self.parts)\<close>; Python's hash of a tuple is the parameter \<open>h\<close>.
\<close>

definition Partition_hash :: "(nat list list \<Rightarrow> 'h) \<Rightarrow> Partition \<Rightarrow> 'h" where
  "Partition_hash h p = h (parts p)"

definition indices :: "Partition \<Rightarrow> nat list" where
  "indices p = sort (concat (parts p))"

definition is_total :: "Partition \<Rightarrow> bool" where
  "is_total p = (Partition_len p = 1)"

text \<open>The builtin \<open>min\<close> over integers: \<open>ValueError\<close> on an empty sequence.\<close>

fun min_of :: "nat list \<Rightarrow> error + nat" where
  "min_of [] = Inl ValueError"
| "min_of (x # xs) = Inr (fold min xs x)"

text \<open>
  \<open>normalization\<close>. In the second branch \<open>len(self) - 1\<close> is negative only for a
  partition with no group at all, where \<open>min\<close> raises; so the value, when there is one,
  is a natural number.
\<close>

definition normalization :: "Partition \<Rightarrow> error + nat" where
  "normalization p =
     (if is_total p then Inr (length (indices p))
      else (case min_of (map length (parts p)) of
              Inl e \<Rightarrow> Inl e
            | Inr m \<Rightarrow> Inr ((Partition_len p - 1) * m)))"

subsection \<open>generate\_partitions\<close>

text \<open>
  Modelled from the spec: \<open>pyphi.partition.bipartition\<close> is imported by the module and is
  not among the sources. The spec describes it as the primitive that, given an ordered
  collection, returns every way to split it into two disjoint subsets whose union is the
  whole collection, an unordered pair being listed once; \<open>generate_partitions\<close> expects
  the split with an empty side as \<open>((), (1, 2, ..))\<close>, the empty side first. The model
  lists one representative of every unordered pair: the first side runs over the
  subsequences of all elements but the last, the second side is the rest, in the
  collection's order. An empty collection has no split.
\<close>

fun splits :: "'a list \<Rightarrow> ('a list \<times> 'a list) list" where
  "splits [] = [([], [])]"
| "splits (x # xs) = concat (map (\<lambda>(a, b). [(a, x # b), (x # a, b)]) (splits xs))"

definition bipartition :: "'a list \<Rightarrow> ('a list \<times> 'a list) list" where
  "bipartition seq =
     (if seq = [] then []
      else map (\<lambda>(a, b). (a, b @ [last seq])) (splits (butlast seq)))"

text \<open>
  \<open>generate_partitions\<close>: the generator is the list of the partitions it yields, in
  order.
\<close>

definition generate_partitions :: "nat list \<Rightarrow> Partition list" where
  "generate_partitions node_indices =
     map (\<lambda>(a, b). if a = [] then Partition_init [b] else Partition_init [a, b])
       (bipartition node_indices)"

subsection \<open>Collaborators\<close>

text \<open>
  The numeric primitives the module imports are parameters: \<open>flatten\<close> and
  \<open>max_entropy_distribution\<close> of \<open>pyphi.distribution\<close>, \<open>scipy.stats.entropy\<close> at base 2
  (its second argument may be absent) and \<open>numpy.multiply\<close>; so is \<open>truediv\<close>, the
  operator \<open>/\<close> of a float by a positive integer. \<open>'r\<close> is the type of a repertoire,
  \<open>'f\<close> of a flattened one, \<open>'v\<close> of a float.
\<close>

record ('r, 'f, 'v) numerics =
  flatten :: "'r \<Rightarrow> 'f"
  scipy_entropy :: "'f \<Rightarrow> 'f option \<Rightarrow> 'v"
  np_multiply :: "'r \<Rightarrow> 'r \<Rightarrow> 'r"
  max_entropy_distribution :: "nat list \<Rightarrow> nat \<Rightarrow> 'r"
  truediv :: "'v \<Rightarrow> nat \<Rightarrow> 'v"

text \<open>\<open>entropy(pk, qk=None)\<close>; \<open>flatten(None)\<close> is \<open>None\<close>.\<close>

definition entropy :: "('r, 'f, 'v) numerics \<Rightarrow> 'r \<Rightarrow> 'r option \<Rightarrow> 'v" where
  "entropy N pk qk = scipy_entropy N (flatten N pk) (map_option (flatten N) qk)"

subsection \<open>class Subsystem\_2\_0\<close>

text \<open>
  The network and the IIT 3.0 subsystem built from it are seen only through
  \<open>self._subsystem_3_0.cause_repertoire(mechanism, purview)\<close>, the field
  \<open>cause_repertoire\<close>; it is \<open>None\<close> where the collaborator raises.
\<close>

record 'r Subsystem_2_0 =
  state :: "nat list"
  node_indices :: "nat list"
  cause_repertoire :: "nat list \<Rightarrow> nat list \<Rightarrow> 'r option"

definition Subsystem_len :: "'r Subsystem_2_0 \<Rightarrow> nat" where
  "Subsystem_len s = length (node_indices s)"

text \<open>A \<open>mechanism\<close> argument is \<open>None\<close> by default and then stands for all nodes.\<close>

definition mechanism_or_all :: "'r Subsystem_2_0 \<Rightarrow> nat list option \<Rightarrow> nat list" where
  "mechanism_or_all s mechanism = (case mechanism of None \<Rightarrow> node_indices s | Some m \<Rightarrow> m)"

definition prior_repertoire ::
  "('r, 'f, 'v) numerics \<Rightarrow> 'r Subsystem_2_0 \<Rightarrow> nat list option \<Rightarrow> 'r" where
  "prior_repertoire N s mechanism =
     max_entropy_distribution N (mechanism_or_all s mechanism) (Subsystem_len s)"

definition posterior_repertoire :: "'r Subsystem_2_0 \<Rightarrow> nat list option \<Rightarrow> error + 'r" where
  "posterior_repertoire s mechanism =
     (let m = mechanism_or_all s mechanism in
      case cause_repertoire s m m of None \<Rightarrow> Inl CollaboratorError | Some r \<Rightarrow> Inr r)"

text \<open>A list comprehension over calls that may raise: the first exception ends it.\<close>

fun collect :: "('a \<Rightarrow> error + 'b) \<Rightarrow> 'a list \<Rightarrow> error + 'b list" where
  "collect f [] = Inr []"
| "collect f (x # xs) =
     (case f x of
        Inl e \<Rightarrow> Inl e
      | Inr y \<Rightarrow> (case collect f xs of Inl e \<Rightarrow> Inl e | Inr ys \<Rightarrow> Inr (y # ys)))"

text \<open>\<open>functools.reduce(f, seq)\<close> with no initial value.\<close>

fun reduce :: "('a \<Rightarrow> 'a \<Rightarrow> 'a) \<Rightarrow> 'a list \<Rightarrow> error + 'a" where
  "reduce f [] = Inl TypeError"
| "reduce f (x # xs) = Inr (foldl f x xs)"

definition partitioned_posterior_repertoire ::
  "('r, 'f, 'v) numerics \<Rightarrow> 'r Subsystem_2_0 \<Rightarrow> Partition \<Rightarrow> error + 'r" where
  "partitioned_posterior_repertoire N s p =
     (case collect (\<lambda>mechanism. posterior_repertoire s (Some mechanism)) (parts p) of
        Inl e \<Rightarrow> Inl e
      | Inr rs \<Rightarrow> reduce (np_multiply N) rs)"

definition effective_information ::
  "('r, 'f, 'v) numerics \<Rightarrow> 'r Subsystem_2_0 \<Rightarrow> nat list option \<Rightarrow> error + 'v" where
  "effective_information N s mechanism =
     (case posterior_repertoire s mechanism of
        Inl e \<Rightarrow> Inl e
      | Inr post \<Rightarrow> Inr (entropy N post (Some (prior_repertoire N s mechanism))))"

definition effective_information_partition ::
  "('r, 'f, 'v) numerics \<Rightarrow> 'r Subsystem_2_0 \<Rightarrow> Partition \<Rightarrow> error + 'v" where
  "effective_information_partition N s p =
     (if indices p \<noteq> node_indices s then Inl AssertionError
      else if is_total p then effective_information N s None
      else (case posterior_repertoire s None of
              Inl e \<Rightarrow> Inl e
            | Inr post \<Rightarrow>
                (case partitioned_posterior_repertoire N s p of
                   Inl e \<Rightarrow> Inl e
                 | Inr q \<Rightarrow> Inr (entropy N post (Some q)))))"

subsection \<open>class Mip\_2\_0\<close>

text \<open>
  A Mip holds its effective information and its partition (the field \<open>partition\<close>, here
  \<open>mip_partition\<close>). The back reference to the subsystem takes no part in any comparison
  and is left out.
\<close>

record 'v Mip_2_0 =
  ei :: 'v
  mip_partition :: Partition

text \<open>
  \<open>ei_normalized\<close> is \<open>self.ei / self.partition.normalization\<close>, the division of the
  float by the integer. A zero divisor is \<open>ZeroDivisionError\<close>, as for a Python float
  (a numpy float gives an infinity or NaN there; no generated partition has a zero
  normalization).
\<close>

definition ei_normalized :: "('r, 'f, 'v) numerics \<Rightarrow> 'v Mip_2_0 \<Rightarrow> error + 'v" where
  "ei_normalized N m =
     (case normalization (mip_partition m) of
        Inl e \<Rightarrow> Inl e
      | Inr k \<Rightarrow> if k = 0 then Inl ZeroDivisionError else Inr (truediv N (ei m) k))"

definition Mip_eq :: "'v Mip_2_0 \<Rightarrow> 'v Mip_2_0 \<Rightarrow> bool" where
  "Mip_eq m other = (ei m = ei other \<and> Partition_eq (mip_partition m) (mip_partition other))"

text \<open>The tuple \<open>(self.ei_normalized, self.ei)\<close> that \<open>__lt__\<close> builds.\<close>

definition lt_key :: "('r, 'f, 'v) numerics \<Rightarrow> 'v Mip_2_0 \<Rightarrow> error + 'v \<times> 'v" where
  "lt_key N m = (case ei_normalized N m of Inl e \<Rightarrow> Inl e | Inr x \<Rightarrow> Inr (x, ei m))"

text \<open>
  Python's \<open><\<close> on two pairs: the first components that differ decide; equal pairs are
  not less.
\<close>

fun tuple_lt :: "'v::linorder \<times> 'v \<Rightarrow> 'v \<times> 'v \<Rightarrow> bool" where
  "tuple_lt (a, b) (c, d) = (if a \<noteq> c then a < c else if b \<noteq> d then b < d else False)"

definition Mip_lt ::
  "('r, 'f, 'v::linorder) numerics \<Rightarrow> 'v Mip_2_0 \<Rightarrow> 'v Mip_2_0 \<Rightarrow> error + bool" where
  "Mip_lt N m other =
     (case lt_key N m of
        Inl e \<Rightarrow> Inl e
      | Inr k \<Rightarrow> (case lt_key N other of Inl e \<Rightarrow> Inl e | Inr k' \<Rightarrow> Inr (tuple_lt k k')))"

subsection \<open>find\_mip and phi\<close>

text \<open>The element the generator expression of \<open>find_mip\<close> builds for one partition.\<close>

definition mip_of ::
  "('r, 'f, 'v) numerics \<Rightarrow> 'r Subsystem_2_0 \<Rightarrow> Partition \<Rightarrow> error + 'v Mip_2_0" where
  "mip_of N s p =
     (case effective_information_partition N s p of
        Inl e \<Rightarrow> Inl e
      | Inr v \<Rightarrow> Inr \<lparr>ei = v, mip_partition = p\<rparr>)"

text \<open>
  The builtin \<open>min\<close> over the generator: each next Mip is built, then compared with the
  smallest so far by \<open>item < smallest\<close>, and replaces it when that is true. The first
  item is taken without a comparison; no item is a \<open>ValueError\<close>.
\<close>

fun min_loop ::
  "('r, 'f, 'v::linorder) numerics \<Rightarrow> 'r Subsystem_2_0 \<Rightarrow> 'v Mip_2_0 \<Rightarrow> Partition list \<Rightarrow>
   error + 'v Mip_2_0" where
  "min_loop N s smallest [] = Inr smallest"
| "min_loop N s smallest (p # ps) =
     (case mip_of N s p of
        Inl e \<Rightarrow> Inl e
      | Inr item \<Rightarrow>
          (case Mip_lt N item smallest of
             Inl e \<Rightarrow> Inl e
           | Inr lt \<Rightarrow> min_loop N s (if lt then item else smallest) ps))"

definition find_mip ::
  "('r, 'f, 'v::linorder) numerics \<Rightarrow> 'r Subsystem_2_0 \<Rightarrow> error + 'v Mip_2_0" where
  "find_mip N s =
     (case generate_partitions (node_indices s) of
        [] \<Rightarrow> Inl ValueError
      | p # ps \<Rightarrow> (case mip_of N s p of Inl e \<Rightarrow> Inl e | Inr first \<Rightarrow> min_loop N s first ps))"

definition phi :: "('r, 'f, 'v::linorder) numerics \<Rightarrow> 'r Subsystem_2_0 \<Rightarrow> error + 'v" where
  "phi N s = (case find_mip N s of Inl e \<Rightarrow> Inl e | Inr m \<Rightarrow> Inr (ei m))"

subsection \<open>The entropy primitive, in exact arithmetic\<close>

text \<open>
  Modelled from the spec: \<open>scipy.stats.entropy\<close> is a third-party primitive and is not
  among the sources. The spec gives its contract: given two probability arrays it
  returns their relative entropy in bits (logarithm to base 2), and with the second
  argument absent the Shannon entropy of the first. The model is that quantity over
  the real numbers, a zero probability contributing nothing; a positive probability
  against a zero one, where the relative entropy is infinite, is outside it.
\<close>

definition relative_entropy :: "real list \<Rightarrow> real list option \<Rightarrow> real" where
  "relative_entropy pk qk =
     (case qk of
        None \<Rightarrow> - (\<Sum>x\<leftarrow>pk. if x = 0 then 0 else x * log 2 x)
      | Some qs \<Rightarrow> (\<Sum>(x, y)\<leftarrow>zip pk qs. if x = 0 then 0 else x * log 2 (x / y)))"

subsection \<open>Example systems\<close>

text \<open>
  Repertoires as lists of probabilities, already flattened, over binary nodes. The
  entropy is the relative entropy above, the prior is uniform, and the product of the
  repertoires of two disjoint groups is their outer product. The division is exact;
  every figure in the examples is a small dyadic number.
\<close>

definition demo_numerics :: "(real list, real list, real) numerics" where
  "demo_numerics =
     \<lparr>flatten = id, scipy_entropy = relative_entropy,
      np_multiply = (\<lambda>a b. concat (map (\<lambda>x. map (\<lambda>y. x * y) b) a)),
      max_entropy_distribution =
        (\<lambda>mechanism n. replicate (2 ^ length mechanism) (1 / 2 ^ length mechanism)),
      truediv = (\<lambda>x k. x / real k)\<rparr>"

text \<open>
  Two nodes that copy each other: the posterior of the whole is concentrated on two
  states and the posterior of each node alone is flat. The collaborator raises for any
  other mechanism.
\<close>

definition demo_subsystem :: "real list Subsystem_2_0" where
  "demo_subsystem =
     \<lparr>state = [1, 0], node_indices = [0, 1],
      cause_repertoire = (\<lambda>mechanism purview.
         if mechanism = [0, 1] then Some [1/2, 0, 0, 1/2]
         else if mechanism = [0] \<or> mechanism = [1] then Some [1/2, 1/2]
         else None)\<rparr>"

text \<open>
  Three nodes whose past is fully determined, each on its own: every posterior is
  concentrated on one state, so every split into two groups loses nothing.
\<close>

definition fixed_subsystem :: "real list Subsystem_2_0" where
  "fixed_subsystem =
     \<lparr>state = [0, 0, 0], node_indices = [0, 1, 2],
      cause_repertoire = (\<lambda>mechanism purview.
         if length mechanism = 1 then Some [1, 0]
         else if length mechanism = 2 then Some [1, 0, 0, 0]
         else Some [1, 0, 0, 0, 0, 0, 0, 0])\<rparr>"

section \<open>The enumeration of partitions\<close>

lemma length_splits: "length (splits xs) = 2 ^ length xs"
  by (induction xs) (simp_all add: length_concat comp_def split_def sum_list_triv)

lemma splits_mset: "(a, b) \<in> set (splits xs) \<Longrightarrow> mset a + mset b = mset xs"
  by (induction xs arbitrary: a b) auto

lemma splits_fst_subset: "(a, b) \<in> set (splits xs) \<Longrightarrow> set a \<subseteq> set xs"
  using splits_mset[of a b xs] by (metis mset_subset_eqD mset_subset_eq_add_left set_mset_mset subsetI)

lemma filter_split_step:
  "filter (\<lambda>(a, b). a = []) (concat (map (\<lambda>(a, b). [(a, x # b), (x # a, b)]) zs)) =
   map (\<lambda>(a, b). (a, x # b)) (filter (\<lambda>(a, b). a = []) zs)"
  by (induction zs) auto

lemma splits_empty_fst: "filter (\<lambda>(a, b). a = []) (splits xs) = [([], xs)]"
  by (induction xs) (simp_all add: filter_split_step)

lemma set_split_step:
  "set (concat (map (\<lambda>(a, b). [(a, x # b), (x # a, b)]) zs)) =
   (\<lambda>(a, b). (a, x # b)) ` set zs \<union> (\<lambda>(a, b). (x # a, b)) ` set zs"
  by (induction zs) auto

lemma distinct_split_step:
  "distinct zs \<Longrightarrow> \<forall>(a, b) \<in> set zs. x \<notin> set a \<Longrightarrow>
   distinct (concat (map (\<lambda>(a, b). [(a, x # b), (x # a, b)]) zs))"
proof (induction zs)
  case Nil
  then show ?case by simp
next
  case (Cons z zs)
  obtain a b where z: "z = (a, b)" by (cases z)
  from Cons.prems have xa: "x \<notin> set a" and rest: "\<forall>(a, b) \<in> set zs. x \<notin> set a"
    and nz: "(a, b) \<notin> set zs" and dz: "distinct zs"
    by (auto simp: z)
  have ih: "distinct (concat (map (\<lambda>(a, b). [(a, x # b), (x # a, b)]) zs))"
    using Cons.IH dz rest by blast
  have n1: "(a, x # b) \<notin> set (concat (map (\<lambda>(a, b). [(a, x # b), (x # a, b)]) zs))"
    unfolding set_split_step using nz xa by auto
  have n2: "(x # a, b) \<notin> set (concat (map (\<lambda>(a, b). [(a, x # b), (x # a, b)]) zs))"
    unfolding set_split_step using nz rest by auto
  show ?case using ih n1 n2 by (simp add: z)
qed

lemma distinct_splits: "distinct xs \<Longrightarrow> distinct (splits xs)"
proof (induction xs)
  case Nil
  then show ?case by simp
next
  case (Cons x xs)
  have "\<forall>(a, b) \<in> set (splits xs). x \<notin> set a"
    using Cons.prems splits_fst_subset by fastforce
  then show ?case using Cons by (simp add: distinct_split_step)
qed


lemma bipartition_mset: "(a, b) \<in> set (bipartition xs) \<Longrightarrow> mset a + mset b = mset xs"
proof -
  assume h: "(a, b) \<in> set (bipartition xs)"
  then have ne: "xs \<noteq> []" by (auto simp: bipartition_def)
  from h ne obtain b' where b: "b = b' @ [last xs]" and m: "(a, b') \<in> set (splits (butlast xs))"
    by (auto simp: bipartition_def)
  have "mset a + mset b = mset (butlast xs) + {#last xs#}"
    using splits_mset[OF m] by (simp add: b)
  also have "\<dots> = mset (butlast xs @ [last xs])" by simp
  finally show ?thesis using ne by simp
qed

lemma bipartition_snd_nonempty: "(a, b) \<in> set (bipartition xs) \<Longrightarrow> b \<noteq> []"
  by (auto simp: bipartition_def split: if_splits)

lemma length_bipartition: "xs \<noteq> [] \<Longrightarrow> length (bipartition xs) = 2 ^ (length xs - 1)"
  by (simp add: bipartition_def length_splits)

lemma bipartition_empty_fst:
  "xs \<noteq> [] \<Longrightarrow> filter (\<lambda>(a, b). a = []) (bipartition xs) = [([], xs)]"
proof -
  assume ne: "xs \<noteq> []"
  have "filter (\<lambda>(a, b). a = []) (bipartition xs) =
        map (\<lambda>(a, b). (a, b @ [last xs])) (filter (\<lambda>(a, b). a = []) (splits (butlast xs)))"
    using ne by (simp add: bipartition_def filter_map comp_def split_def)
  then show ?thesis using ne by (simp add: splits_empty_fst)
qed

lemma distinct_bipartition: "distinct xs \<Longrightarrow> distinct (bipartition xs)"
proof (cases "xs = []")
  case True
  then show ?thesis by (simp add: bipartition_def)
next
  case False
  assume "distinct xs"
  then have "distinct (splits (butlast xs))" by (simp add: distinct_splits distinct_butlast)
  moreover have "inj_on (\<lambda>(a, b). (a, b @ [last xs])) (set (splits (butlast xs)))"
    by (auto simp: inj_on_def)
  ultimately show ?thesis using False
    by (simp add: bipartition_def distinct_map)
qed

lemma bipartition_last:
  "distinct xs \<Longrightarrow> (a, b) \<in> set (bipartition xs) \<Longrightarrow> last xs \<in> set b \<and> last xs \<notin> set a"
proof -
  assume d: "distinct xs" and h: "(a, b) \<in> set (bipartition xs)"
  then have ne: "xs \<noteq> []" by (auto simp: bipartition_def)
  from h ne obtain b' where b: "b = b' @ [last xs]" and m: "(a, b') \<in> set (splits (butlast xs))"
    by (auto simp: bipartition_def)
  have "distinct (butlast xs @ [last xs])" using d ne by simp
  then have "last xs \<notin> set (butlast xs)" by (simp del: append_butlast_last_id)
  then show ?thesis using splits_fst_subset[OF m] b by auto
qed

lemma bipartition_disjoint:
  "distinct xs \<Longrightarrow> (a, b) \<in> set (bipartition xs) \<Longrightarrow> set a \<inter> set b = {}"
proof -
  assume d: "distinct xs" and h: "(a, b) \<in> set (bipartition xs)"
  have "distinct (a @ b)"
    using bipartition_mset[OF h] d by (metis mset_eq_imp_distinct_iff mset_append)
  then show ?thesis by simp
qed


lemma Partition_init_one: "Partition_init [b] = \<lparr>parts = [b]\<rparr>"
  by (simp add: Partition_init_def)

lemma Partition_init_two:
  "Partition_init [a, b] = \<lparr>parts = (if a \<le> b then [a, b] else [b, a])\<rparr>"
  by (simp add: Partition_init_def)

lemma generate_partitions_mem:
  "p \<in> set (generate_partitions ns) \<Longrightarrow>
   \<exists>a b. (a, b) \<in> set (bipartition ns) \<and>
         (if a = [] then p = Partition_init [b] else p = Partition_init [a, b])"
proof -
  assume "p \<in> set (generate_partitions ns)"
  then obtain a b where ab: "(a, b) \<in> set (bipartition ns)"
    and p: "p = (if a = [] then Partition_init [b] else Partition_init [a, b])"
    by (auto simp: generate_partitions_def)
  from p have "if a = [] then p = Partition_init [b] else p = Partition_init [a, b]"
    by simp
  with ab show ?thesis by blast
qed

lemma indices_generated:
  assumes "p \<in> set (generate_partitions ns)"
  shows "indices p = sort ns"
proof -
  from generate_partitions_mem[OF assms] obtain a b where
    ab: "(a, b) \<in> set (bipartition ns)" and
    p: "if a = [] then p = Partition_init [b] else p = Partition_init [a, b]"
    by blast
  have "mset (concat (parts p)) = mset a + mset b"
    using p by (auto simp: Partition_init_one Partition_init_two split: if_splits)
  then have "mset (concat (parts p)) = mset ns"
    using bipartition_mset[OF ab] by simp
  then have "mset (sort ns) = mset (concat (parts p))" by simp
  then have "sort (concat (parts p)) = sort ns"
    by (rule properties_for_sort) simp
  then show ?thesis by (simp add: indices_def)
qed

lemma normalization_generated:
  assumes "p \<in> set (generate_partitions ns)"
  shows "\<exists>k. normalization p = Inr k \<and> 1 \<le> k"
proof -
  from generate_partitions_mem[OF assms] obtain a b where
    ab: "(a, b) \<in> set (bipartition ns)" and
    p: "if a = [] then p = Partition_init [b] else p = Partition_init [a, b]"
    by blast
  have b: "b \<noteq> []" using bipartition_snd_nonempty[OF ab] .
  show ?thesis
  proof (cases "a = []")
    case True
    then show ?thesis using p b
      by (simp add: Partition_init_one normalization_def is_total_def Partition_len_def
          indices_def Suc_le_eq)
  next
    case False
    then show ?thesis using p b
      by (auto simp: Partition_init_two normalization_def is_total_def Partition_len_def
          Suc_le_eq min_def)
  qed
qed

lemma total_generated:
  "ns \<noteq> [] \<Longrightarrow> filter is_total (generate_partitions ns) = [\<lparr>parts = [ns]\<rparr>]"
proof -
  assume ne: "ns \<noteq> []"
  have "filter is_total (generate_partitions ns) =
        map (\<lambda>(a, b). if a = [] then Partition_init [b] else Partition_init [a, b])
          (filter (\<lambda>(a, b). a = []) (bipartition ns))"
    unfolding generate_partitions_def filter_map
    by (rule arg_cong[where f = "map _"], rule filter_cong)
       (auto simp: Partition_init_one Partition_init_two is_total_def Partition_len_def
          split: if_splits)
  then show ?thesis using ne by (simp add: bipartition_empty_fst Partition_init_one)
qed

lemma distinct_generated:
  assumes "distinct ns"
  shows "distinct (generate_partitions ns)"
proof -
  let ?g = "\<lambda>(a, b). if a = [] then Partition_init [b] else Partition_init [a, b]"
  have "inj_on ?g (set (bipartition ns))"
  proof (rule inj_onI)
    fix u v assume u: "u \<in> set (bipartition ns)" and v: "v \<in> set (bipartition ns)"
      and e: "?g u = ?g v"
    obtain a b where uu: "u = (a, b)" by (cases u)
    obtain c d where vv: "v = (c, d)" by (cases v)
    have la: "last ns \<in> set b" "last ns \<notin> set a"
      using bipartition_last[OF assms] u uu by auto
    have lc: "last ns \<in> set d" "last ns \<notin> set c"
      using bipartition_last[OF assms] v vv by auto
    show "u = v"
      using e la lc unfolding uu vv
      by (auto simp: Partition_init_one Partition_init_two split: if_splits)
  qed
  then show ?thesis
    using distinct_bipartition[OF assms] by (simp add: generate_partitions_def distinct_map)
qed


lemma genuine_generated:
  assumes "distinct ns" and "p \<in> set (generate_partitions ns)"
  shows "(\<exists>a b. parts p = [a, b] \<and> a \<noteq> [] \<and> b \<noteq> [] \<and> set a \<inter> set b = {}) = (\<not> is_total p)"
proof -
  from generate_partitions_mem[OF assms(2)] obtain a b where
    ab: "(a, b) \<in> set (bipartition ns)" and
    p: "if a = [] then p = Partition_init [b] else p = Partition_init [a, b]"
    by blast
  have b: "b \<noteq> []" using bipartition_snd_nonempty[OF ab] .
  have d: "set a \<inter> set b = {}" using bipartition_disjoint[OF assms(1) ab] .
  show ?thesis
  proof (cases "a = []")
    case True
    then show ?thesis using p
      by (simp add: Partition_init_one is_total_def Partition_len_def)
  next
    case False
    then show ?thesis using p b d
      by (auto simp: Partition_init_two is_total_def Partition_len_def)
  qed
qed

lemma splits_filter: "(filter P xs, filter (\<lambda>x. \<not> P x) xs) \<in> set (splits xs)"
  by (induction xs) (auto simp: set_split_step)

lemma bipartition_filter:
  assumes "xs \<noteq> []" and "\<not> P (last xs)"
  shows "(filter P xs, filter (\<lambda>x. \<not> P x) xs) \<in> set (bipartition xs)"
proof -
  have x: "xs = butlast xs @ [last xs]" using assms(1) by simp
  have "filter P xs = filter P (butlast xs)"
    by (subst x) (simp add: assms(2) del: append_butlast_last_id)
  moreover have "filter (\<lambda>x. \<not> P x) xs = filter (\<lambda>x. \<not> P x) (butlast xs) @ [last xs]"
    by (subst x) (simp add: assms(2) del: append_butlast_last_id)
  ultimately show ?thesis
    using assms(1) splits_filter[of P "butlast xs"]
    by (force simp: bipartition_def)
qed

lemma generated_cover:
  assumes "p \<in> set (generate_partitions ns)"
  shows "mset (concat (parts p)) = mset ns"
proof -
  from generate_partitions_mem[OF assms] obtain a b where
    ab: "(a, b) \<in> set (bipartition ns)" and
    p: "if a = [] then p = Partition_init [b] else p = Partition_init [a, b]"
    by blast
  have "mset (concat (parts p)) = mset a + mset b"
    using p by (auto simp: Partition_init_one Partition_init_two split: if_splits)
  then show ?thesis using bipartition_mset[OF ab] by simp
qed

lemma every_bipartition_generated:
  assumes d: "distinct ns" and A: "A \<noteq> {}" and B: "B \<noteq> {}" and
    dj: "A \<inter> B = {}" and un: "A \<union> B = set ns"
  shows "\<exists>p \<in> set (generate_partitions ns). set ` set (parts p) = {A, B}"
proof -
  have ne: "ns \<noteq> []" using A un by auto
  have l: "last ns \<in> A \<union> B" using ne un by simp
  have main: "\<exists>p \<in> set (generate_partitions ns). set ` set (parts p) = {C, D}"
    if C: "C \<noteq> {}" and dj': "C \<inter> D = {}" and un': "C \<union> D = set ns" and lD: "last ns \<in> D"
    for C D
  proof -
    let ?a = "filter (\<lambda>x. x \<in> C) ns" and ?b = "filter (\<lambda>x. \<not> x \<in> C) ns"
    have "last ns \<notin> C" using lD dj' by blast
    then have m: "(?a, ?b) \<in> set (bipartition ns)" by (rule bipartition_filter[OF ne])
    have sa: "set ?a = C" using un' by (simp only: set_filter) blast
    have sb: "set ?b = D" using un' dj' by (simp only: set_filter) blast
    have an: "?a \<noteq> []" using sa C by (metis empty_set)
    have "(\<lambda>(a, b). if a = [] then Partition_init [b] else Partition_init [a, b]) (?a, ?b)
            \<in> set (generate_partitions ns)"
      unfolding generate_partitions_def set_map using m by (rule imageI)
    then have g: "Partition_init [?a, ?b] \<in> set (generate_partitions ns)"
      using an by simp
    have "set (parts (Partition_init [?a, ?b])) = {?a, ?b}"
      by (simp add: Partition_init_two insert_commute)
    then have "set ` set (parts (Partition_init [?a, ?b])) = {set ?a, set ?b}"
      by (simp only: image_insert image_empty)
    then have "set ` set (parts (Partition_init [?a, ?b])) = {C, D}"
      by (simp only: sa sb)
    with g show ?thesis by blast
  qed
  from l show ?thesis
  proof
    assume lA: "last ns \<in> A"
    have i: "B \<inter> A = {}" using dj by blast
    have u: "B \<union> A = set ns" using un by blast
    have "\<exists>p \<in> set (generate_partitions ns). set ` set (parts p) = {B, A}"
      using B i u lA by (rule main)
    moreover have "{B, A} = {A, B}" by blast
    ultimately show ?thesis by simp
  next
    assume "last ns \<in> B"
    with A dj un show ?thesis by (rule main)
  qed
qed

text \<open>
  C2. For a non-empty node set of \<open>n\<close> distinct nodes, \<open>generate_partitions\<close> yields
  \<open>2 ^ (n - 1)\<close> partitions: the only total one is the single group equal to the whole
  node set; \<open>2 ^ (n - 1) - 1\<close> of them are two disjoint non-empty groups whose union is
  the node set; no partition is yielded twice (a partition stores its groups sorted, so
  a pair in either order is the same partition). Every partition holds every node
  once, and every split of the node set into two non-empty sets is yielded.
\<close>

theorem generate_partitions_count:
  assumes "ns \<noteq> []" and "distinct ns"
  shows "length (generate_partitions ns) = 2 ^ (length ns - 1) \<and>
         filter is_total (generate_partitions ns) = [\<lparr>parts = [ns]\<rparr>] \<and>
         length (filter (\<lambda>p. \<exists>a b. parts p = [a, b] \<and> a \<noteq> [] \<and> b \<noteq> [] \<and>
                                  set a \<inter> set b = {} \<and> set a \<union> set b = set ns)
                   (generate_partitions ns)) = 2 ^ (length ns - 1) - 1 \<and>
         distinct (generate_partitions ns) \<and>
         (\<forall>p \<in> set (generate_partitions ns). mset (concat (parts p)) = mset ns) \<and>
         (\<forall>A B. A \<noteq> {} \<and> B \<noteq> {} \<and> A \<inter> B = {} \<and> A \<union> B = set ns \<longrightarrow>
            (\<exists>p \<in> set (generate_partitions ns). set ` set (parts p) = {A, B}))"
proof -
  let ?gps = "generate_partitions ns"
  let ?Q = "\<lambda>p. \<exists>a b. parts p = [a, b] \<and> a \<noteq> [] \<and> b \<noteq> [] \<and>
                      set a \<inter> set b = {} \<and> set a \<union> set b = set ns"
  have len: "length ?gps = 2 ^ (length ns - 1)"
    using assms(1) by (simp add: generate_partitions_def length_bipartition)
  have tot: "filter is_total ?gps = [\<lparr>parts = [ns]\<rparr>]"
    using assms(1) by (rule total_generated)
  have q: "?Q p = (\<not> is_total p)" if p: "p \<in> set ?gps" for p
  proof -
    have "set (concat (parts p)) = set ns"
      using generated_cover[OF p] by (metis set_mset_mset)
    then show ?thesis
      using genuine_generated[OF assms(2) p] by auto
  qed
  have "filter ?Q ?gps = filter (\<lambda>p. \<not> is_total p) ?gps"
    by (rule filter_cong) (simp_all add: q)
  moreover have "length (filter is_total ?gps) + length (filter (\<lambda>p. \<not> is_total p) ?gps) =
                 length ?gps"
    by (rule sum_length_filter_compl)
  ultimately have cnt: "length (filter ?Q ?gps) = 2 ^ (length ns - 1) - 1"
    using len tot by simp
  have cov: "\<forall>p \<in> set ?gps. mset (concat (parts p)) = mset ns"
    using generated_cover by blast
  have all: "\<forall>A B. A \<noteq> {} \<and> B \<noteq> {} \<and> A \<inter> B = {} \<and> A \<union> B = set ns \<longrightarrow>
            (\<exists>p \<in> set ?gps. set ` set (parts p) = {A, B})"
    using every_bipartition_generated[OF assms(2)] by blast
  from len tot cnt distinct_generated[OF assms(2)] cov all show ?thesis by blast
qed

theorem generate_partitions_count_witness:
  "[0, 1, 2] \<noteq> ([] :: nat list) \<and> distinct [0, 1, 2 :: nat] \<and>
   generate_partitions [0, 1, 2] =
     [\<lparr>parts = [[0, 1, 2]]\<rparr>, \<lparr>parts = [[0], [1, 2]]\<rparr>, \<lparr>parts = [[0, 2], [1]]\<rparr>,
      \<lparr>parts = [[0, 1], [2]]\<rparr>] \<and>
   length (generate_partitions [0, 1, 2]) = 4 \<and>
   filter is_total (generate_partitions [0, 1, 2]) = [\<lparr>parts = [[0, 1, 2]]\<rparr>] \<and>
   length (filter (\<lambda>p. \<exists>a b. parts p = [a, b] \<and> a \<noteq> [] \<and> b \<noteq> [] \<and>
                            set a \<inter> set b = {} \<and> set a \<union> set b = set [0, 1, 2])
             (generate_partitions [0, 1, 2])) = 3 \<and>
   distinct (generate_partitions [0, 1, 2])"
proof -
  have g: "generate_partitions [0, 1, 2] =
     [\<lparr>parts = [[0, 1, 2]]\<rparr>, \<lparr>parts = [[0], [1, 2]]\<rparr>, \<lparr>parts = [[0, 2], [1]]\<rparr>,
      \<lparr>parts = [[0, 1], [2]]\<rparr>]"
    by (simp add: generate_partitions_def bipartition_def Partition_init_def)
  have c: "[0, 1, 2] \<noteq> ([] :: nat list) \<and> distinct [0, 1, 2 :: nat]" by simp
  show ?thesis
    using g c generate_partitions_count [of "[0, 1, 2]"] by simp
qed

text \<open>
  C7. The round-trip law fails on a node tuple that is not in ascending order: for the
  node tuple \<open>(1, 0)\<close> the total partition is yielded, and its \<open>indices\<close> are \<open>(0, 1)\<close>,
  not the node tuple.
\<close>

theorem generated_indices_unsorted:
  "\<lparr>parts = [[1, 0]]\<rparr> \<in> set (generate_partitions [1, 0]) \<and>
   indices \<lparr>parts = [[1, 0]]\<rparr> = [0, 1] \<and> indices \<lparr>parts = [[1, 0]]\<rparr> \<noteq> [1, 0]"
  by (simp add: generate_partitions_def bipartition_def Partition_init_def indices_def)

text \<open>
  X1. For a node tuple in ascending order the law holds: \<open>indices\<close> of every partition
  that \<open>generate_partitions\<close> yields is the node tuple.
\<close>

theorem generated_indices_ascending:
  assumes "sorted ns" and "p \<in> set (generate_partitions ns)"
  shows "indices p = ns"
  using indices_generated[OF assms(2)] assms(1) by (simp add: sorted_sort_id)

theorem generated_indices_ascending_witness:
  "sorted [0, 1, 2 :: nat] \<and>
   \<lparr>parts = [[0, 2], [1]]\<rparr> \<in> set (generate_partitions [0, 1, 2]) \<and>
   indices \<lparr>parts = [[0, 2], [1]]\<rparr> = [0, 1, 2]"
proof -
  have s: "sorted [0, 1, 2 :: nat]" by simp
  have m: "\<lparr>parts = [[0, 2], [1]]\<rparr> \<in> set (generate_partitions [0, 1, 2])"
    by (simp add: generate_partitions_def bipartition_def Partition_init_def)
  show ?thesis using s m generated_indices_ascending [OF s m] by simp
qed

lemma min_of_Min: "xs \<noteq> [] \<Longrightarrow> min_of xs = Inr (Min (set xs))"
proof (cases xs)
  case Nil
  assume "xs \<noteq> []"
  with Nil show ?thesis by simp
next
  case (Cons a list)
  then show ?thesis using Min.set_eq_fold [of a list] by simp
qed

text \<open>
  C6. The normalization of a total partition is the number of its nodes; that of a
  partition of \<open>k \<ge> 2\<close> groups is \<open>(k - 1)\<close> times the size of its smallest group. For
  every partition that \<open>generate_partitions\<close> yields it is at least 1, and for the total
  one it is the size of the node set.
\<close>

theorem normalization_value:
  "(is_total p \<longrightarrow> normalization p = Inr (length (indices p))) \<and>
   (2 \<le> Partition_len p \<longrightarrow>
      normalization p = Inr ((Partition_len p - 1) * Min (length ` set (parts p)))) \<and>
   (q \<in> set (generate_partitions ns) \<longrightarrow> (\<exists>k. normalization q = Inr k \<and> 1 \<le> k)) \<and>
   (q \<in> set (generate_partitions ns) \<and> is_total q \<longrightarrow> normalization q = Inr (length ns))"
proof -
  have a: "is_total p \<longrightarrow> normalization p = Inr (length (indices p))"
    by (simp add: normalization_def)
  have b: "2 \<le> Partition_len p \<longrightarrow>
      normalization p = Inr ((Partition_len p - 1) * Min (length ` set (parts p)))"
  proof
    assume k: "2 \<le> Partition_len p"
    then have ne: "map length (parts p) \<noteq> []" by (auto simp: Partition_len_def)
    show "normalization p = Inr ((Partition_len p - 1) * Min (length ` set (parts p)))"
      using k min_of_Min[OF ne] by (simp add: normalization_def is_total_def)
  qed
  have c: "q \<in> set (generate_partitions ns) \<longrightarrow> (\<exists>k. normalization q = Inr k \<and> 1 \<le> k)"
    using normalization_generated by blast
  have d: "q \<in> set (generate_partitions ns) \<and> is_total q \<longrightarrow> normalization q = Inr (length ns)"
    using indices_generated[of q ns] by (auto simp: normalization_def)
  from a b c d show ?thesis by blast
qed

theorem normalization_value_witness:
  "is_total \<lparr>parts = [[0, 1, 2]]\<rparr> \<and> normalization \<lparr>parts = [[0, 1, 2]]\<rparr> = Inr 3 \<and>
   2 \<le> Partition_len \<lparr>parts = [[0], [1, 2], [3, 4, 5]]\<rparr> \<and>
   normalization \<lparr>parts = [[0], [1, 2], [3, 4, 5]]\<rparr> = Inr ((3 - 1) * 1) \<and>
   \<lparr>parts = [[0, 1, 2]]\<rparr> \<in> set (generate_partitions [0, 1, 2]) \<and>
   (\<exists>k. normalization \<lparr>parts = [[0, 1, 2]]\<rparr> = Inr k \<and> 1 \<le> k) \<and>
   normalization \<lparr>parts = [[0, 1, 2]]\<rparr> = Inr (length [0, 1, 2 :: nat])"
proof -
  have t: "is_total \<lparr>parts = [[0, 1, 2]]\<rparr>" by (simp add: is_total_def Partition_len_def)
  have k: "2 \<le> Partition_len \<lparr>parts = [[0], [1, 2], [3, 4, 5]]\<rparr>"
    by (simp add: Partition_len_def)
  have m: "\<lparr>parts = [[0, 1, 2]]\<rparr> \<in> set (generate_partitions [0, 1, 2])"
    by (simp add: generate_partitions_def bipartition_def Partition_init_def)
  show ?thesis
    using t k m
      normalization_value [of "\<lparr>parts = [[0, 1, 2]]\<rparr>" "\<lparr>parts = [[0, 1, 2]]\<rparr>" "[0, 1, 2]"]
      normalization_value [of "\<lparr>parts = [[0], [1, 2], [3, 4, 5]]\<rparr>" "\<lparr>parts = [[0, 1, 2]]\<rparr>" "[0, 1, 2]"]
    by (simp add: indices_def Partition_len_def)
qed

section \<open>Partitions as values\<close>

text \<open>
  C9. Two partitions built from the same groups in any order are equal and have the same
  hash: the groups are stored sorted. In particular \<open>Partition(A, B)\<close> equals
  \<open>Partition(B, A)\<close>.
\<close>

theorem partition_order_irrelevant:
  "(mset ps = mset qs \<longrightarrow>
      Partition_init ps = Partition_init qs \<and>
      Partition_eq (Partition_init ps) (Partition_init qs) \<and>
      Partition_hash h (Partition_init ps) = Partition_hash h (Partition_init qs)) \<and>
   sorted (parts (Partition_init ps)) \<and>
   Partition_eq (Partition_init [A, B]) (Partition_init [B, A]) \<and>
   Partition_hash h (Partition_init [A, B]) = Partition_hash h (Partition_init [B, A])"
proof -
  have s: "mset ps = mset qs \<longrightarrow> sort ps = sort qs"
    by (metis properties_for_sort mset_sort sorted_sort)
  have "mset [A, B] = mset [B, A]" by simp
  then have t: "sort [A, B] = sort [B, A]"
    by (metis properties_for_sort mset_sort sorted_sort)
  show ?thesis using s t
    by (simp add: Partition_init_def Partition_eq_def Partition_hash_def del: sort_key_simps)
qed

theorem partition_order_irrelevant_witness:
  "mset [[1, 2], [0 :: nat]] = mset [[0], [1, 2]] \<and>
   Partition_init [[1, 2], [0]] = Partition_init [[0], [1, 2]] \<and>
   Partition_eq (Partition_init [[1, 2], [0]]) (Partition_init [[0], [1, 2]]) \<and>
   Partition_hash length (Partition_init [[1, 2], [0]]) =
     Partition_hash length (Partition_init [[0], [1, 2]]) \<and>
   parts (Partition_init [[1, 2], [0]]) = [[0], [1, 2]]"
proof -
  have m: "mset [[1, 2], [0 :: nat]] = mset [[0], [1, 2]]" by simp
  show ?thesis
    using m partition_order_irrelevant [of "[[1, 2], [0]]" "[[0], [1, 2]]" length]
    by (simp add: Partition_init_def)
qed

section \<open>Effective information across a partition\<close>

lemma posterior_repertoire_error:
  "posterior_repertoire s mechanism = Inl e \<Longrightarrow> e = CollaboratorError"
  by (auto simp: posterior_repertoire_def Let_def split: option.splits)

lemma collect_error: "collect f xs = Inl e \<Longrightarrow> \<exists>x \<in> set xs. f x = Inl e"
  by (induction xs) (auto split: sum.splits)

lemma collect_ok:
  "\<forall>x \<in> set xs. \<exists>y. f x = Inr y \<Longrightarrow> \<exists>ys. collect f xs = Inr ys \<and> length ys = length xs"
  by (induction xs) (auto split: sum.splits)

lemma reduce_error: "reduce f xs = Inl e \<Longrightarrow> e = TypeError \<and> xs = []"
  by (cases xs) auto

lemma partitioned_posterior_error:
  "partitioned_posterior_repertoire N s p = Inl e \<Longrightarrow> e = CollaboratorError \<or> e = TypeError"
  by (auto simp: partitioned_posterior_repertoire_def split: sum.splits
      dest!: collect_error posterior_repertoire_error reduce_error)

lemma partitioned_posterior_returns:
  assumes "parts p \<noteq> []" and "\<forall>g \<in> set (parts p). cause_repertoire s g g \<noteq> None"
  shows "\<exists>r. partitioned_posterior_repertoire N s p = Inr r"
proof -
  have "\<forall>g \<in> set (parts p). \<exists>y. posterior_repertoire s (Some g) = Inr y"
    using assms(2) by (auto simp: posterior_repertoire_def mechanism_or_all_def)
  from collect_ok[OF this] obtain rs where
    rs: "collect (\<lambda>mechanism. posterior_repertoire s (Some mechanism)) (parts p) = Inr rs"
    and l: "length rs = length (parts p)"
    by blast
  from l assms(1) have "rs \<noteq> []" by auto
  then obtain r rs' where "rs = r # rs'" by (cases rs) auto
  then show ?thesis
    using rs by (simp add: partitioned_posterior_repertoire_def)
qed

lemma collect_map:
  "\<forall>x \<in> set xs. f x = Inr (h x) \<Longrightarrow> collect f xs = Inr (map h xs)"
  by (induction xs) auto

lemma partitioned_posterior_value:
  assumes "parts p = g # gs" and "\<forall>g \<in> set (parts p). cause_repertoire s g g \<noteq> None"
  shows "partitioned_posterior_repertoire N s p =
           Inr (foldl (np_multiply N) (the (cause_repertoire s g g))
                  (map (\<lambda>g. the (cause_repertoire s g g)) gs))"
proof -
  have "\<forall>g \<in> set (parts p). posterior_repertoire s (Some g) = Inr (the (cause_repertoire s g g))"
    using assms(2) by (auto simp: posterior_repertoire_def mechanism_or_all_def)
  then have "collect (\<lambda>mechanism. posterior_repertoire s (Some mechanism)) (parts p) =
             Inr (map (\<lambda>g. the (cause_repertoire s g g)) (parts p))"
    by (rule collect_map)
  then show ?thesis
    by (simp add: partitioned_posterior_repertoire_def assms(1))
qed

lemma posterior_demo_whole:
  "posterior_repertoire demo_subsystem None = Inr [1/2, 0, 0, 1/2]"
  by (simp add: posterior_repertoire_def mechanism_or_all_def demo_subsystem_def)

lemma posterior_demo_node:
  "posterior_repertoire demo_subsystem (Some [0]) = Inr [1/2, 1/2]"
  "posterior_repertoire demo_subsystem (Some [Suc 0]) = Inr [1/2, 1/2]"
  by (simp_all add: posterior_repertoire_def mechanism_or_all_def demo_subsystem_def)

lemma replicate_4: "replicate 4 x = [x, x, x, x]"
  by (simp add: numeral_eq_Suc)

lemma replicate_8: "replicate 8 x = [x, x, x, x, x, x, x, x]"
  by (simp add: numeral_eq_Suc)

lemma prior_demo:
  "prior_repertoire demo_numerics demo_subsystem None = [1/4, 1/4, 1/4, 1/4]"
  by (simp add: prior_repertoire_def mechanism_or_all_def demo_subsystem_def
      demo_numerics_def replicate_4)

lemma relative_entropy_whole:
  "relative_entropy [1/2, 0, 0, 1/2] (Some [1/4, 1/4, 1/4, 1/4]) = 1"
  by (simp add: relative_entropy_def)

lemma entropy_demo:
  "entropy demo_numerics [1/2, 0, 0, 1/2] (Some [1/4, 1/4, 1/4, 1/4]) = 1"
  by (simp add: entropy_def demo_numerics_def relative_entropy_whole)

lemma effective_information_demo:
  "effective_information demo_numerics demo_subsystem None = Inr 1"
  by (simp add: effective_information_def posterior_demo_whole prior_demo entropy_demo)

lemma partitioned_posterior_demo:
  "partitioned_posterior_repertoire demo_numerics demo_subsystem \<lparr>parts = [[0], [Suc 0]]\<rparr> =
     Inr [1/4, 1/4, 1/4, 1/4]"
  by (simp add: partitioned_posterior_repertoire_def posterior_demo_node demo_numerics_def)

lemma effective_information_partition_demo:
  "effective_information_partition demo_numerics demo_subsystem \<lparr>parts = [[0], [1]]\<rparr> = Inr 1"
proof -
  have i: "indices \<lparr>parts = [[0], [1]]\<rparr> = node_indices demo_subsystem"
    by (simp add: indices_def demo_subsystem_def)
  show ?thesis
    unfolding effective_information_partition_def
    using i by (simp add: is_total_def Partition_len_def posterior_demo_whole
        partitioned_posterior_demo entropy_demo)
qed

text \<open>
  C5. When \<open>partition.indices\<close> differs from the node set,
  \<open>effective_information_partition\<close> ends with the assertion failure and nothing else:
  whatever the collaborator would answer, even where every call of it would raise, so no
  repertoire is asked for before. When the two are equal the assertion does not fire.
\<close>

theorem assertion_guards_partition:
  "(indices p \<noteq> node_indices s \<longrightarrow>
      (\<forall>c. effective_information_partition N (s\<lparr>cause_repertoire := c\<rparr>) p = Inl AssertionError)) \<and>
   (indices p = node_indices s \<longrightarrow>
      effective_information_partition N s p \<noteq> Inl AssertionError)"
proof -
  have a: "indices p \<noteq> node_indices s \<longrightarrow>
      (\<forall>c. effective_information_partition N (s\<lparr>cause_repertoire := c\<rparr>) p = Inl AssertionError)"
    by (simp add: effective_information_partition_def)
  have b: "indices p = node_indices s \<longrightarrow>
      effective_information_partition N s p \<noteq> Inl AssertionError"
    by (auto simp: effective_information_partition_def effective_information_def
        split: sum.splits dest!: posterior_repertoire_error partitioned_posterior_error)
  from a b show ?thesis by blast
qed

theorem assertion_guards_partition_witness:
  "indices \<lparr>parts = [[0]]\<rparr> \<noteq> node_indices demo_subsystem \<and>
   effective_information_partition demo_numerics
     (demo_subsystem\<lparr>cause_repertoire := (\<lambda>mechanism purview. None)\<rparr>) \<lparr>parts = [[0]]\<rparr> =
     Inl AssertionError \<and>
   indices \<lparr>parts = [[0], [1]]\<rparr> = node_indices demo_subsystem \<and>
   effective_information_partition demo_numerics demo_subsystem \<lparr>parts = [[0], [1]]\<rparr> = Inr 1 \<and>
   effective_information_partition demo_numerics demo_subsystem \<lparr>parts = [[0], [1]]\<rparr> \<noteq>
     Inl AssertionError"
proof -
  have n: "indices \<lparr>parts = [[0]]\<rparr> \<noteq> node_indices demo_subsystem"
    by (simp add: indices_def demo_subsystem_def)
  have e: "indices \<lparr>parts = [[0], [1]]\<rparr> = node_indices demo_subsystem"
    by (simp add: indices_def demo_subsystem_def)
  show ?thesis
    using n e effective_information_partition_demo
      assertion_guards_partition [of "\<lparr>parts = [[0]]\<rparr>" demo_subsystem demo_numerics]
      assertion_guards_partition [of "\<lparr>parts = [[0], [1]]\<rparr>" demo_subsystem demo_numerics]
    by simp
qed

text \<open>
  C4, as amended. \<open>partitioned_posterior_repertoire\<close> makes no check of
  \<open>partition.indices\<close> and raises no assertion failure of its own, whether or not the
  indices are the subsystem's node set: for a partition with at least one group, on each
  of which the collaborator answers, it returns the product of the groups' posterior
  repertoires, folded from the left.
\<close>

theorem partitioned_posterior_unchecked:
  "partitioned_posterior_repertoire N s p \<noteq> Inl AssertionError \<and>
   (parts p = g # gs \<and> (\<forall>g \<in> set (parts p). cause_repertoire s g g \<noteq> None) \<longrightarrow>
      partitioned_posterior_repertoire N s p =
        Inr (foldl (np_multiply N) (the (cause_repertoire s g g))
               (map (\<lambda>g. the (cause_repertoire s g g)) gs)))"
proof -
  have a: "partitioned_posterior_repertoire N s p \<noteq> Inl AssertionError"
    using partitioned_posterior_error by fastforce
  have c: "parts p = g # gs \<and> (\<forall>g \<in> set (parts p). cause_repertoire s g g \<noteq> None) \<longrightarrow>
      partitioned_posterior_repertoire N s p =
        Inr (foldl (np_multiply N) (the (cause_repertoire s g g))
               (map (\<lambda>g. the (cause_repertoire s g g)) gs))"
    using partitioned_posterior_value by blast
  from a c show ?thesis by blast
qed

text \<open>
  C4 as stated fails: in the example system of nodes \<open>(0, 1)\<close> the partition of the
  single group \<open>(0)\<close> has other indices than the node set, and
  \<open>partitioned_posterior_repertoire\<close> returns the posterior repertoire of that group.
\<close>

theorem partitioned_posterior_mismatch:
  "indices \<lparr>parts = [[0]]\<rparr> \<noteq> node_indices demo_subsystem \<and>
   partitioned_posterior_repertoire demo_numerics demo_subsystem \<lparr>parts = [[0]]\<rparr> =
     Inr [1/2, 1/2]"
  by (simp add: indices_def partitioned_posterior_repertoire_def posterior_demo_node)
     (simp add: demo_subsystem_def)

theorem partitioned_posterior_unchecked_witness:
  "indices \<lparr>parts = [[0]]\<rparr> \<noteq> node_indices demo_subsystem \<and>
   parts \<lparr>parts = [[0]]\<rparr> = [0] # [] \<and>
   cause_repertoire demo_subsystem [0] [0] \<noteq> None \<and>
   partitioned_posterior_repertoire demo_numerics demo_subsystem \<lparr>parts = [[0]]\<rparr> =
     Inr [1/2, 1/2] \<and>
   parts \<lparr>parts = [[0], [1]]\<rparr> = [0] # [[1]] \<and>
   cause_repertoire demo_subsystem [1] [1] \<noteq> None \<and>
   partitioned_posterior_repertoire demo_numerics demo_subsystem \<lparr>parts = [[0], [1]]\<rparr> =
     Inr [1/4, 1/4, 1/4, 1/4] \<and>
   partitioned_posterior_repertoire demo_numerics demo_subsystem \<lparr>parts = [[0], [1]]\<rparr> \<noteq>
     Inl AssertionError"
proof -
  have n: "indices \<lparr>parts = [[0]]\<rparr> \<noteq> node_indices demo_subsystem"
    by (simp add: indices_def demo_subsystem_def)
  have c1: "\<forall>g \<in> set (parts \<lparr>parts = [[0]]\<rparr>). cause_repertoire demo_subsystem g g \<noteq> None"
    by (simp add: demo_subsystem_def)
  have c2: "\<forall>g \<in> set (parts \<lparr>parts = [[0], [1]]\<rparr>). cause_repertoire demo_subsystem g g \<noteq> None"
    by (simp add: demo_subsystem_def)
  have v1: "foldl (np_multiply demo_numerics) (the (cause_repertoire demo_subsystem [0] [0]))
             (map (\<lambda>g. the (cause_repertoire demo_subsystem g g)) []) = [1/2, 1/2]"
    by (simp add: demo_subsystem_def)
  have v2: "foldl (np_multiply demo_numerics) (the (cause_repertoire demo_subsystem [0] [0]))
             (map (\<lambda>g. the (cause_repertoire demo_subsystem g g)) [[1]]) =
           [1/4, 1/4, 1/4, 1/4]"
    by (simp add: demo_subsystem_def demo_numerics_def)
  show ?thesis
    using n c1 c2 v1 v2
      partitioned_posterior_unchecked
        [of demo_numerics demo_subsystem "\<lparr>parts = [[0]]\<rparr>" "[0]" "[]"]
      partitioned_posterior_unchecked
        [of demo_numerics demo_subsystem "\<lparr>parts = [[0], [1]]\<rparr>" "[0]" "[[1]]"]
    by (simp add: demo_subsystem_def)
qed

text \<open>
  C3, as amended. For a total partition whose indices are the subsystem's node set,
  \<open>effective_information_partition\<close> is \<open>effective_information()\<close> of the whole system.
  The partitioned computation would compare the posterior repertoire with itself: for
  the partition of the single group of all nodes, \<open>partitioned_posterior_repertoire\<close> is
  the posterior repertoire of the whole.
\<close>

theorem total_partition_special_case:
  "(is_total p \<and> indices p = node_indices s \<longrightarrow>
      effective_information_partition N s p = effective_information N s None) \<and>
   (parts p = [node_indices s] \<longrightarrow>
      partitioned_posterior_repertoire N s p = posterior_repertoire s None)"
proof -
  have a: "is_total p \<and> indices p = node_indices s \<longrightarrow>
      effective_information_partition N s p = effective_information N s None"
    by (simp add: effective_information_partition_def)
  have b: "parts p = [node_indices s] \<longrightarrow>
      partitioned_posterior_repertoire N s p = posterior_repertoire s None"
    by (auto simp: partitioned_posterior_repertoire_def posterior_repertoire_def
        mechanism_or_all_def split: option.splits)
  from a b show ?thesis by blast
qed

text \<open>
  C3 as stated fails for a total partition of other nodes: in the example system of
  nodes \<open>(0, 1)\<close> the partition of the single group \<open>(0)\<close> is total and
  \<open>effective_information_partition\<close> ends with the assertion failure, while
  \<open>effective_information()\<close> is 1.
\<close>

theorem total_partition_mismatch:
  "is_total \<lparr>parts = [[0]]\<rparr> \<and>
   effective_information_partition demo_numerics demo_subsystem \<lparr>parts = [[0]]\<rparr> =
     Inl AssertionError \<and>
   effective_information demo_numerics demo_subsystem None = Inr 1"
  by (simp add: is_total_def Partition_len_def effective_information_demo
      effective_information_partition_def indices_def)
     (simp add: demo_subsystem_def)

theorem total_partition_special_case_witness:
  "is_total \<lparr>parts = [[0, 1]]\<rparr> \<and> indices \<lparr>parts = [[0, 1]]\<rparr> = node_indices demo_subsystem \<and>
   parts \<lparr>parts = [[0, 1]]\<rparr> = [node_indices demo_subsystem] \<and>
   effective_information_partition demo_numerics demo_subsystem \<lparr>parts = [[0, 1]]\<rparr> = Inr 1 \<and>
   effective_information demo_numerics demo_subsystem None = Inr 1 \<and>
   partitioned_posterior_repertoire demo_numerics demo_subsystem \<lparr>parts = [[0, 1]]\<rparr> =
     Inr [1/2, 0, 0, 1/2]"
proof -
  have t: "is_total \<lparr>parts = [[0, 1]]\<rparr>" by (simp add: is_total_def Partition_len_def)
  have i: "indices \<lparr>parts = [[0, 1]]\<rparr> = node_indices demo_subsystem"
    by (simp add: indices_def demo_subsystem_def)
  have p: "parts \<lparr>parts = [[0, 1]]\<rparr> = [node_indices demo_subsystem]"
    by (simp add: demo_subsystem_def)
  show ?thesis
    using t i p effective_information_demo posterior_demo_whole
      total_partition_special_case [of "\<lparr>parts = [[0, 1]]\<rparr>" demo_subsystem demo_numerics]
    by simp
qed

section \<open>Effective information of a mechanism\<close>

lemma ln_ratio_bound:
  fixes x y :: real
  assumes "0 < x" and "0 < y"
  shows "x - y \<le> x * ln (x / y)"
proof -
  have p: "0 < y / x" using assms by simp
  have "ln (y / x) \<le> y / x - 1" using p by (rule ln_le_minus_one)
  then have "x * ln (y / x) \<le> x * (y / x - 1)" using assms(1) by (simp add: mult_left_mono)
  also have "\<dots> = y - x" using assms(1) by (simp add: right_diff_distrib)
  finally have "x * ln (y / x) \<le> y - x" .
  moreover have "ln (y / x) = - ln (x / y)" using assms by (simp add: ln_divide_pos)
  ultimately show ?thesis by simp
qed

lemma ln_ratio_equal:
  fixes x y :: real
  assumes "0 < x" and "0 < y" and "x * ln (x / y) = x - y"
  shows "x = y"
proof -
  have p: "0 < y / x" using assms by simp
  have "ln (y / x) = - ln (x / y)" using assms by (simp add: ln_divide_pos)
  then have "x * ln (y / x) = y - x" using assms(3) by simp
  then have "ln (y / x) = (y - x) / x" using assms(1) by (simp add: nonzero_eq_divide_eq mult.commute)
  also have "\<dots> = y / x - 1" using assms(1) by (simp add: diff_divide_distrib)
  finally have "ln (y / x) = y / x - 1" .
  with p have "y / x = 1" by (rule ln_eq_minus_one)
  then show ?thesis using assms(1) by simp
qed

lemma term_bound:
  assumes "0 \<le> x" and "0 < y"
  shows "(x - y) / ln 2 \<le> (if x = 0 then 0 else x * log 2 (x / y))"
proof (cases "x = 0")
  case True
  then show ?thesis using assms(2) by (simp add: divide_nonpos_pos)
next
  case False
  then have x: "0 < x" using assms(1) by simp
  have "(x - y) / ln 2 \<le> (x * ln (x / y)) / ln 2"
    using ln_ratio_bound[OF x assms(2)] by (simp add: divide_right_mono)
  then show ?thesis using False by (simp add: log_def)
qed

lemma term_equal:
  assumes "0 \<le> x" and "0 < y"
    and "(if x = 0 then 0 else x * log 2 (x / y)) = (x - y) / ln 2"
  shows "x = y"
proof (cases "x = 0")
  case True
  then show ?thesis using assms(2,3) by simp
next
  case False
  then have x: "0 < x" using assms(1) by simp
  have "x * ln (x / y) / ln 2 = (x - y) / ln 2"
    using assms(3) False by (simp add: log_def)
  then have "x * ln (x / y) = x - y" by simp
  then show ?thesis using ln_ratio_equal[OF x assms(2)] by simp
qed

lemma gibbs_bound:
  assumes "length p = length q" and "\<forall>x \<in> set p. 0 \<le> x" and "\<forall>y \<in> set q. 0 < y"
  shows "(sum_list p - sum_list q) / ln 2 \<le>
         (\<Sum>(x, y)\<leftarrow>zip p q. if x = 0 then 0 else x * log 2 (x / y))"
  using assms
proof (induction p q rule: list_induct2)
  case Nil
  then show ?case by simp
next
  case (Cons x xs y ys)
  have t: "(x - y) / ln 2 \<le> (if x = 0 then 0 else x * log 2 (x / y))"
    using Cons.prems by (intro term_bound) simp_all
  have r: "(sum_list xs - sum_list ys) / ln 2 \<le>
         (\<Sum>(x, y)\<leftarrow>zip xs ys. if x = 0 then 0 else x * log 2 (x / y))"
    using Cons.IH Cons.prems by simp
  have "(sum_list (x # xs) - sum_list (y # ys)) / ln 2 =
        (x - y) / ln 2 + (sum_list xs - sum_list ys) / ln 2"
    by (simp add: diff_divide_distrib add_divide_distrib)
  then show ?case using t r by simp
qed

lemma gibbs_equal:
  assumes "length p = length q" and "\<forall>x \<in> set p. 0 \<le> x" and "\<forall>y \<in> set q. 0 < y"
    and "(\<Sum>(x, y)\<leftarrow>zip p q. if x = 0 then 0 else x * log 2 (x / y)) =
         (sum_list p - sum_list q) / ln 2"
  shows "p = q"
  using assms
proof (induction p q rule: list_induct2)
  case Nil
  then show ?case by simp
next
  case (Cons x xs y ys)
  define t where "t = (if x = 0 then 0 else x * log 2 (x / y))"
  define r where "r = (\<Sum>(x, y)\<leftarrow>zip xs ys. if x = 0 then 0 else x * log 2 (x / y))"
  define a where "a = (x - y) / ln 2"
  define b where "b = (sum_list xs - sum_list ys) / ln 2"
  have x0: "0 \<le> x" and y0: "0 < y" using Cons.prems(1,2) by simp_all
  have xs0: "\<forall>x \<in> set xs. 0 \<le> x" and ys0: "\<forall>y \<in> set ys. 0 < y"
    using Cons.prems(1,2) by simp_all
  have t: "a \<le> t"
    unfolding a_def t_def using x0 y0 by (rule term_bound)
  have r: "b \<le> r"
    unfolding b_def r_def using Cons.hyps xs0 ys0 by (rule gibbs_bound)
  have "(sum_list (x # xs) - sum_list (y # ys)) / ln 2 = a + b"
    unfolding a_def b_def by (simp add: diff_divide_distrib add_divide_distrib)
  moreover have "(\<Sum>(x, y)\<leftarrow>zip (x # xs) (y # ys). if x = 0 then 0 else x * log 2 (x / y)) = t + r"
    unfolding t_def r_def by simp
  ultimately have s: "t + r = a + b" using Cons.prems(3) by simp
  from s t r have te: "t = a" and re: "r = b" by linarith+
  have "x = y" using x0 y0 te unfolding t_def a_def by (rule term_equal)
  moreover have "xs = ys" using xs0 ys0 re unfolding r_def b_def by (rule Cons.IH)
  ultimately show ?case by simp
qed

lemma relative_entropy_self:
  "(\<Sum>(x, y)\<leftarrow>zip p p. if x = 0 then 0 else x * log 2 (x / y)) = 0"
  by (induction p) simp_all

lemma relative_entropy_gibbs:
  assumes "length p = length q" and "\<forall>x \<in> set p. 0 \<le> x" and "\<forall>y \<in> set q. 0 < y"
    and "sum_list p = 1" and "sum_list q = 1"
  shows "0 \<le> relative_entropy p (Some q) \<and> (relative_entropy p (Some q) = 0) = (p = q)"
proof -
  have b: "0 \<le> relative_entropy p (Some q)"
    using gibbs_bound[OF assms(1-3)] assms(4,5) by (simp add: relative_entropy_def)
  have e: "relative_entropy p (Some q) = 0 \<Longrightarrow> p = q"
    using gibbs_equal[OF assms(1-3)] assms(4,5) by (simp add: relative_entropy_def)
  have "p = q \<Longrightarrow> relative_entropy p (Some q) = 0"
    by (simp add: relative_entropy_def relative_entropy_self)
  with b e show ?thesis by blast
qed

text \<open>
  C8. With the entropy primitive the relative entropy in bits, the effective
  information of a mechanism whose posterior repertoire is a probability distribution
  and whose prior is a probability distribution without a zero (the maximum-entropy
  prior is uniform) is at least 0, and it is 0 exactly when the posterior and the prior
  coincide.
\<close>

theorem effective_information_nonneg:
  assumes "scipy_entropy N = relative_entropy"
    and "posterior_repertoire s mechanism = Inr post"
    and "length (flatten N post) = length (flatten N (prior_repertoire N s mechanism))"
    and "\<forall>x \<in> set (flatten N post). 0 \<le> x"
    and "sum_list (flatten N post) = 1"
    and "\<forall>y \<in> set (flatten N (prior_repertoire N s mechanism)). 0 < y"
    and "sum_list (flatten N (prior_repertoire N s mechanism)) = 1"
  shows "\<exists>v. effective_information N s mechanism = Inr v \<and> 0 \<le> v \<and>
             (v = 0) = (flatten N post = flatten N (prior_repertoire N s mechanism))"
proof -
  let ?p = "flatten N post" and ?q = "flatten N (prior_repertoire N s mechanism)"
  have "effective_information N s mechanism = Inr (relative_entropy ?p (Some ?q))"
    using assms(1,2) by (simp add: effective_information_def entropy_def)
  then show ?thesis
    using relative_entropy_gibbs[OF assms(3,4,6,5,7)] by simp
qed

theorem effective_information_nonneg_witness:
  "scipy_entropy demo_numerics = relative_entropy \<and>
   posterior_repertoire demo_subsystem None = Inr [1/2, 0, 0, 1/2] \<and>
   flatten demo_numerics (prior_repertoire demo_numerics demo_subsystem None) =
     [1/4, 1/4, 1/4, 1/4] \<and>
   sum_list [1/2, 0, 0, 1/2 :: real] = 1 \<and> sum_list [1/4, 1/4, 1/4, 1/4 :: real] = 1 \<and>
   effective_information demo_numerics demo_subsystem None = Inr 1 \<and>
   (\<exists>v. effective_information demo_numerics demo_subsystem None = Inr v \<and> 0 \<le> v \<and> v \<noteq> 0)"
proof -
  have e: "scipy_entropy demo_numerics = relative_entropy" by (simp add: demo_numerics_def)
  have f: "flatten demo_numerics = id" by (simp add: demo_numerics_def)
  have q: "flatten demo_numerics (prior_repertoire demo_numerics demo_subsystem None) =
             [1/4, 1/4, 1/4, 1/4]"
    by (simp add: f prior_demo)
  have h1: "length (flatten demo_numerics [1/2, 0, 0, 1/2]) =
            length (flatten demo_numerics (prior_repertoire demo_numerics demo_subsystem None))"
    by (simp add: q) (simp add: f)
  have h2: "\<forall>x \<in> set (flatten demo_numerics [1/2, 0, 0, 1/2]). 0 \<le> x" by (simp add: f)
  have h3: "sum_list (flatten demo_numerics [1/2, 0, 0, 1/2]) = 1" by (simp add: f)
  have h4: "\<forall>y \<in> set (flatten demo_numerics
              (prior_repertoire demo_numerics demo_subsystem None)). 0 < y"
    by (simp add: q)
  have h5: "sum_list (flatten demo_numerics
              (prior_repertoire demo_numerics demo_subsystem None)) = 1"
    by (simp add: q)
  show ?thesis
    using e q posterior_demo_whole effective_information_demo
      effective_information_nonneg [OF e posterior_demo_whole h1 h2 h3 h4 h5]
    by simp
qed

section \<open>The minimum information partition\<close>

lemma tuple_lt_iff:
  "tuple_lt k k' = (fst k < fst k' \<or> (fst k = fst k' \<and> snd k < snd k'))"
  by (cases k; cases k') auto

lemma not_tuple_lt_iff:
  "(\<not> tuple_lt k' k) = (fst k < fst k' \<or> (fst k = fst k' \<and> snd k \<le> snd k'))"
  by (cases k; cases k') auto

lemma Mip_lt_True_iff:
  "(Mip_lt N a b = Inr True) = (\<exists>k k'. lt_key N a = Inr k \<and> lt_key N b = Inr k' \<and> tuple_lt k k')"
  by (auto simp: Mip_lt_def split: sum.splits)

lemma Mip_lt_False_iff:
  "(Mip_lt N a b = Inr False) = (\<exists>k k'. lt_key N a = Inr k \<and> lt_key N b = Inr k' \<and> \<not> tuple_lt k k')"
  by (auto simp: Mip_lt_def split: sum.splits)

lemma Mip_lt_trans:
  "Mip_lt N a b = Inr True \<Longrightarrow> Mip_lt N b c = Inr True \<Longrightarrow> Mip_lt N a c = Inr True"
  unfolding Mip_lt_True_iff tuple_lt_iff by force

lemma Mip_lt_le_trans:
  "Mip_lt N a b = Inr True \<Longrightarrow> Mip_lt N c b = Inr False \<Longrightarrow> Mip_lt N a c = Inr True"
  unfolding Mip_lt_True_iff Mip_lt_False_iff tuple_lt_iff by force

lemma min_loop_first:
  assumes "min_loop N s cur ps = Inr m"
  shows "(m = cur \<and> (\<forall>q \<in> set ps. \<exists>m'. mip_of N s q = Inr m' \<and> Mip_lt N m' m = Inr False)) \<or>
         (\<exists>pre p post. ps = pre @ p # post \<and> mip_of N s p = Inr m \<and> Mip_lt N m cur = Inr True \<and>
            (\<forall>q \<in> set pre. \<exists>m'. mip_of N s q = Inr m' \<and> Mip_lt N m m' = Inr True) \<and>
            (\<forall>q \<in> set post. \<exists>m'. mip_of N s q = Inr m' \<and> Mip_lt N m' m = Inr False))"
  using assms
proof (induction ps arbitrary: cur)
  case Nil
  then show ?case by simp
next
  case (Cons p ps)
  from Cons.prems obtain item lt where
    item: "mip_of N s p = Inr item" and lt: "Mip_lt N item cur = Inr lt" and
    rest: "min_loop N s (if lt then item else cur) ps = Inr m"
    by (auto split: sum.splits)
  let ?c = "if lt then item else cur"
  from Cons.IH[OF rest] consider
    (A) "m = ?c" "\<forall>q \<in> set ps. \<exists>m'. mip_of N s q = Inr m' \<and> Mip_lt N m' m = Inr False"
  | (B) pre q post where "ps = pre @ q # post" "mip_of N s q = Inr m" "Mip_lt N m ?c = Inr True"
      "\<forall>q \<in> set pre. \<exists>m'. mip_of N s q = Inr m' \<and> Mip_lt N m m' = Inr True"
      "\<forall>q \<in> set post. \<exists>m'. mip_of N s q = Inr m' \<and> Mip_lt N m' m = Inr False"
    by blast
  then show ?case
  proof cases
    case A
    show ?thesis
    proof (cases lt)
      case True
      with A lt item have "p # ps = [] @ p # ps" "mip_of N s p = Inr m" "Mip_lt N m cur = Inr True"
        by simp_all
      with A(2) show ?thesis by fastforce
    next
      case False
      with A lt item show ?thesis by auto
    qed
  next
    case B
    have mc: "Mip_lt N m cur = Inr True"
      using B(3) lt by (cases lt) (auto intro: Mip_lt_trans)
    have mi: "Mip_lt N m item = Inr True"
      using B(3) lt by (cases lt) (auto intro: Mip_lt_le_trans)
    have "p # ps = (p # pre) @ q # post" using B(1) by simp
    moreover have "\<forall>q \<in> set (p # pre). \<exists>m'. mip_of N s q = Inr m' \<and> Mip_lt N m m' = Inr True"
      using B(4) item mi by auto
    ultimately show ?thesis using B(2) B(5) mc by blast
  qed
qed

lemma find_mip_first:
  assumes "find_mip N s = Inr m"
  shows "\<exists>pre p post. generate_partitions (node_indices s) = pre @ p # post \<and>
           mip_of N s p = Inr m \<and>
           (\<forall>q \<in> set pre. \<exists>m'. mip_of N s q = Inr m' \<and> Mip_lt N m m' = Inr True) \<and>
           (\<forall>q \<in> set post. \<exists>m'. mip_of N s q = Inr m' \<and> Mip_lt N m' m = Inr False)"
proof -
  from assms obtain p0 ps first where
    g: "generate_partitions (node_indices s) = p0 # ps" and
    f: "mip_of N s p0 = Inr first" and l: "min_loop N s first ps = Inr m"
    by (auto simp: find_mip_def split: list.splits sum.splits)
  from min_loop_first[OF l] show ?thesis
  proof
    assume "m = first \<and> (\<forall>q \<in> set ps. \<exists>m'. mip_of N s q = Inr m' \<and> Mip_lt N m' m = Inr False)"
    then have "generate_partitions (node_indices s) = [] @ p0 # ps \<and> mip_of N s p0 = Inr m \<and>
           (\<forall>q \<in> set []. \<exists>m'. mip_of N s q = Inr m' \<and> Mip_lt N m m' = Inr True) \<and>
           (\<forall>q \<in> set ps. \<exists>m'. mip_of N s q = Inr m' \<and> Mip_lt N m' m = Inr False)"
      using g f by auto
    then show ?thesis by blast
  next
    assume "\<exists>pre p post. ps = pre @ p # post \<and> mip_of N s p = Inr m \<and> Mip_lt N m first = Inr True \<and>
            (\<forall>q \<in> set pre. \<exists>m'. mip_of N s q = Inr m' \<and> Mip_lt N m m' = Inr True) \<and>
            (\<forall>q \<in> set post. \<exists>m'. mip_of N s q = Inr m' \<and> Mip_lt N m' m = Inr False)"
    then obtain pre p post where
      ps: "ps = pre @ p # post" and pm: "mip_of N s p = Inr m" and mf: "Mip_lt N m first = Inr True" and
      a: "\<forall>q \<in> set pre. \<exists>m'. mip_of N s q = Inr m' \<and> Mip_lt N m m' = Inr True" and
      b: "\<forall>q \<in> set post. \<exists>m'. mip_of N s q = Inr m' \<and> Mip_lt N m' m = Inr False"
      by blast
    have "generate_partitions (node_indices s) = (p0 # pre) @ p # post" using g ps by simp
    moreover have "\<forall>q \<in> set (p0 # pre). \<exists>m'. mip_of N s q = Inr m' \<and> Mip_lt N m m' = Inr True"
      using a f mf by auto
    ultimately show ?thesis using pm b by blast
  qed
qed


lemma mip_of_fields:
  "mip_of N s p = Inr m \<Longrightarrow>
   mip_partition m = p \<and> effective_information_partition N s p = Inr (ei m)"
  by (auto simp: mip_of_def split: sum.splits)

lemma lt_key_normalization:
  "normalization (mip_partition m) = Inr n \<Longrightarrow> 1 \<le> n \<Longrightarrow>
   lt_key N m = Inr (truediv N (ei m) n, ei m)"
  by (simp add: lt_key_def ei_normalized_def)

lemma Mip_lt_defined:
  assumes "normalization (mip_partition a) = Inr n" "1 \<le> n"
    and "normalization (mip_partition b) = Inr n'" "1 \<le> n'"
  shows "\<exists>lt. Mip_lt N a b = Inr lt"
  using lt_key_normalization[OF assms(1,2), where N = N]
    lt_key_normalization[OF assms(3,4), where N = N]
  by (simp add: Mip_lt_def)

lemma min_loop_returns:
  assumes "\<forall>p \<in> set ps. \<exists>m. mip_of N s p = Inr m"
    and "\<forall>p \<in> set ps. \<exists>n. normalization p = Inr n \<and> 1 \<le> n"
    and "\<exists>n. normalization (mip_partition cur) = Inr n \<and> 1 \<le> n"
  shows "\<exists>m. min_loop N s cur ps = Inr m"
  using assms
proof (induction ps arbitrary: cur)
  case Nil
  then show ?case by simp
next
  case (Cons p ps)
  from Cons.prems(1) obtain item where item: "mip_of N s p = Inr item" by auto
  then have ip: "mip_partition item = p" by (simp add: mip_of_fields)
  from Cons.prems(2) ip have gi: "\<exists>n. normalization (mip_partition item) = Inr n \<and> 1 \<le> n"
    by simp
  from gi Cons.prems(3) obtain lt where lt: "Mip_lt N item cur = Inr lt"
    using Mip_lt_defined by blast
  have "\<exists>n. normalization (mip_partition (if lt then item else cur)) = Inr n \<and> 1 \<le> n"
    using gi Cons.prems(3) by simp
  then have "\<exists>m. min_loop N s (if lt then item else cur) ps = Inr m"
    using Cons.IH Cons.prems(1,2) by simp
  then show ?case using item lt by simp
qed

lemma total_partition_generated: "ns \<noteq> [] \<Longrightarrow> \<lparr>parts = [ns]\<rparr> \<in> set (generate_partitions ns)"
proof -
  assume "ns \<noteq> []"
  then have "filter is_total (generate_partitions ns) = [\<lparr>parts = [ns]\<rparr>]"
    by (rule total_generated)
  then have "\<lparr>parts = [ns]\<rparr> \<in> set (filter is_total (generate_partitions ns))"
    by simp
  then show ?thesis by simp
qed

lemma generate_partitions_parts:
  "p \<in> set (generate_partitions ns) \<Longrightarrow> parts p \<noteq> []"
  using generate_partitions_mem[of p ns]
  by (auto simp: Partition_init_one Partition_init_two split: if_splits)

lemma mip_of_returns:
  assumes ne: "node_indices s \<noteq> []" and so: "sorted (node_indices s)"
    and cr: "\<forall>q \<in> set (generate_partitions (node_indices s)).
               \<forall>g \<in> set (parts q). cause_repertoire s g g \<noteq> None"
    and p: "p \<in> set (generate_partitions (node_indices s))"
  shows "\<exists>m. mip_of N s p = Inr m"
proof -
  have i: "indices p = node_indices s"
    using indices_generated[OF p] so by (simp add: sorted_sort_id)
  have "\<forall>g \<in> set (parts \<lparr>parts = [node_indices s]\<rparr>). cause_repertoire s g g \<noteq> None"
    using cr total_partition_generated[OF ne] by (rule bspec)
  then have "cause_repertoire s (node_indices s) (node_indices s) \<noteq> None"
    by simp
  then obtain post where post: "posterior_repertoire s None = Inr post"
    by (auto simp: posterior_repertoire_def mechanism_or_all_def)
  have "\<forall>g \<in> set (parts p). cause_repertoire s g g \<noteq> None"
    using cr p by (rule bspec)
  then obtain q where q: "partitioned_posterior_repertoire N s p = Inr q"
    using partitioned_posterior_returns[OF generate_partitions_parts[OF p]] by blast
  show ?thesis
    using i post q
    by (simp add: mip_of_def effective_information_partition_def effective_information_def)
qed

lemma find_mip_returns:
  assumes ne: "node_indices s \<noteq> []" and so: "sorted (node_indices s)"
    and cr: "\<forall>q \<in> set (generate_partitions (node_indices s)).
               \<forall>g \<in> set (parts q). cause_repertoire s g g \<noteq> None"
  shows "\<exists>m. find_mip N s = Inr m"
proof -
  obtain p0 ps where g: "generate_partitions (node_indices s) = p0 # ps"
    using total_partition_generated[OF ne] by (cases "generate_partitions (node_indices s)") auto
  have all: "\<forall>p \<in> set (p0 # ps). \<exists>m. mip_of N s p = Inr m"
  proof
    fix p assume "p \<in> set (p0 # ps)"
    then have "p \<in> set (generate_partitions (node_indices s))" by (simp add: g)
    then show "\<exists>m. mip_of N s p = Inr m" by (rule mip_of_returns[OF ne so cr])
  qed
  have nrm: "\<forall>p \<in> set (p0 # ps). \<exists>n. normalization p = Inr n \<and> 1 \<le> n"
  proof
    fix p assume "p \<in> set (p0 # ps)"
    then have "p \<in> set (generate_partitions (node_indices s))" by (simp add: g)
    then show "\<exists>n. normalization p = Inr n \<and> 1 \<le> n" by (rule normalization_generated)
  qed
  from all obtain first where f: "mip_of N s p0 = Inr first" by auto
  then have "mip_partition first = p0" by (simp add: mip_of_fields)
  then have "\<exists>n. normalization (mip_partition first) = Inr n \<and> 1 \<le> n"
    using nrm by simp
  moreover have "\<forall>p \<in> set ps. \<exists>m. mip_of N s p = Inr m" using all by simp
  moreover have "\<forall>p \<in> set ps. \<exists>n. normalization p = Inr n \<and> 1 \<le> n" using nrm by simp
  ultimately have "\<exists>m. min_loop N s first ps = Inr m"
    using min_loop_returns[of ps N s first] by blast
  then show ?thesis using g f by (simp add: find_mip_def)
qed

lemma find_mip_key:
  assumes "find_mip N s = Inr m"
  shows "\<exists>n. normalization (mip_partition m) = Inr n \<and> 1 \<le> n \<and>
             lt_key N m = Inr (truediv N (ei m) n, ei m)"
proof -
  from find_mip_first[OF assms] obtain pre p post where
    g: "generate_partitions (node_indices s) = pre @ p # post" and pm: "mip_of N s p = Inr m"
    by blast
  have "p \<in> set (generate_partitions (node_indices s))" using g by simp
  from normalization_generated[OF this] obtain n where "normalization p = Inr n" "1 \<le> n"
    by blast
  then show ?thesis using pm lt_key_normalization[of m n] by (auto simp: mip_of_fields)
qed

lemma truediv_demo: "truediv demo_numerics x k = x / real k"
  by (simp add: demo_numerics_def)

lemma generate_partitions_two:
  "generate_partitions [0, 1] = [\<lparr>parts = [[0, 1]]\<rparr>, \<lparr>parts = [[0], [1]]\<rparr>]"
  by (simp add: generate_partitions_def bipartition_def Partition_init_def)

lemma generate_partitions_three:
  "generate_partitions [0, 1, 2] =
     [\<lparr>parts = [[0, 1, 2]]\<rparr>, \<lparr>parts = [[0], [1, 2]]\<rparr>, \<lparr>parts = [[0, 2], [1]]\<rparr>,
      \<lparr>parts = [[0, 1], [2]]\<rparr>]"
  by (simp add: generate_partitions_def bipartition_def Partition_init_def)

lemma lt_key_demo:
  "lt_key demo_numerics \<lparr>ei = 1, mip_partition = \<lparr>parts = [[0, 1]]\<rparr>\<rparr> = Inr (1 / 2, 1)"
  "lt_key demo_numerics \<lparr>ei = 1, mip_partition = \<lparr>parts = [[0], [1]]\<rparr>\<rparr> = Inr (1, 1)"
  by (simp_all add: lt_key_def ei_normalized_def normalization_def is_total_def
      Partition_len_def indices_def truediv_demo)

lemma mip_of_demo:
  "mip_of demo_numerics demo_subsystem \<lparr>parts = [[0, 1]]\<rparr> =
     Inr \<lparr>ei = 1, mip_partition = \<lparr>parts = [[0, 1]]\<rparr>\<rparr>"
  "mip_of demo_numerics demo_subsystem \<lparr>parts = [[0], [1]]\<rparr> =
     Inr \<lparr>ei = 1, mip_partition = \<lparr>parts = [[0], [1]]\<rparr>\<rparr>"
proof -
  have i: "indices \<lparr>parts = [[0, 1]]\<rparr> = node_indices demo_subsystem"
    by (simp add: indices_def demo_subsystem_def)
  show "mip_of demo_numerics demo_subsystem \<lparr>parts = [[0, 1]]\<rparr> =
     Inr \<lparr>ei = 1, mip_partition = \<lparr>parts = [[0, 1]]\<rparr>\<rparr>"
    unfolding mip_of_def effective_information_partition_def
    using i by (simp add: is_total_def Partition_len_def effective_information_demo)
  show "mip_of demo_numerics demo_subsystem \<lparr>parts = [[0], [1]]\<rparr> =
     Inr \<lparr>ei = 1, mip_partition = \<lparr>parts = [[0], [1]]\<rparr>\<rparr>"
    using effective_information_partition_demo by (simp add: mip_of_def)
qed

lemma find_mip_demo:
  "find_mip demo_numerics demo_subsystem = Inr \<lparr>ei = 1, mip_partition = \<lparr>parts = [[0, 1]]\<rparr>\<rparr>"
proof -
  have n: "node_indices demo_subsystem = [0, 1]" by (simp add: demo_subsystem_def)
  have l: "Mip_lt demo_numerics \<lparr>ei = 1, mip_partition = \<lparr>parts = [[0], [1]]\<rparr>\<rparr>
             \<lparr>ei = 1, mip_partition = \<lparr>parts = [[0, 1]]\<rparr>\<rparr> = Inr False"
    unfolding Mip_lt_def lt_key_demo by simp
  show ?thesis
    unfolding find_mip_def n generate_partitions_two
    using mip_of_demo l by simp
qed

lemma log_2_8: "log 2 (8 :: real) = 3"
proof -
  have "log 2 ((2 :: real) ^ 3) = real (3 :: nat) * log 2 2"
    by (rule log_nat_power) simp
  also have "\<dots> = 3" by simp
  finally show ?thesis by simp
qed

lemma posterior_fixed:
  "posterior_repertoire fixed_subsystem None = Inr [1, 0, 0, 0, 0, 0, 0, 0]"
  "posterior_repertoire fixed_subsystem (Some [0]) = Inr [1, 0]"
  "posterior_repertoire fixed_subsystem (Some [1]) = Inr [1, 0]"
  "posterior_repertoire fixed_subsystem (Some [2]) = Inr [1, 0]"
  "posterior_repertoire fixed_subsystem (Some [0, 1]) = Inr [1, 0, 0, 0]"
  "posterior_repertoire fixed_subsystem (Some [0, 2]) = Inr [1, 0, 0, 0]"
  "posterior_repertoire fixed_subsystem (Some [1, 2]) = Inr [1, 0, 0, 0]"
  by (simp_all add: posterior_repertoire_def mechanism_or_all_def fixed_subsystem_def)

lemma prior_fixed:
  "prior_repertoire demo_numerics fixed_subsystem None =
     [1/8, 1/8, 1/8, 1/8, 1/8, 1/8, 1/8, 1/8]"
  by (simp add: prior_repertoire_def mechanism_or_all_def fixed_subsystem_def
      demo_numerics_def Subsystem_len_def replicate_8)

lemma entropy_fixed:
  "entropy demo_numerics [1, 0, 0, 0, 0, 0, 0, 0]
     (Some [1/8, 1/8, 1/8, 1/8, 1/8, 1/8, 1/8, 1/8]) = 3"
  "entropy demo_numerics [1, 0, 0, 0, 0, 0, 0, 0] (Some [1, 0, 0, 0, 0, 0, 0, 0]) = 0"
  by (simp_all add: entropy_def demo_numerics_def relative_entropy_def log_2_8)

lemma partitioned_posterior_fixed:
  "partitioned_posterior_repertoire demo_numerics fixed_subsystem \<lparr>parts = [[0], [1, 2]]\<rparr> =
     Inr [1, 0, 0, 0, 0, 0, 0, 0]"
  "partitioned_posterior_repertoire demo_numerics fixed_subsystem \<lparr>parts = [[0, 2], [1]]\<rparr> =
     Inr [1, 0, 0, 0, 0, 0, 0, 0]"
  "partitioned_posterior_repertoire demo_numerics fixed_subsystem \<lparr>parts = [[0, 1], [2]]\<rparr> =
     Inr [1, 0, 0, 0, 0, 0, 0, 0]"
  using posterior_fixed
  by (simp_all add: partitioned_posterior_repertoire_def demo_numerics_def)

lemma mip_of_fixed:
  "mip_of demo_numerics fixed_subsystem \<lparr>parts = [[0, 1, 2]]\<rparr> =
     Inr \<lparr>ei = 3, mip_partition = \<lparr>parts = [[0, 1, 2]]\<rparr>\<rparr>"
  "mip_of demo_numerics fixed_subsystem \<lparr>parts = [[0], [1, 2]]\<rparr> =
     Inr \<lparr>ei = 0, mip_partition = \<lparr>parts = [[0], [1, 2]]\<rparr>\<rparr>"
  "mip_of demo_numerics fixed_subsystem \<lparr>parts = [[0, 2], [1]]\<rparr> =
     Inr \<lparr>ei = 0, mip_partition = \<lparr>parts = [[0, 2], [1]]\<rparr>\<rparr>"
  "mip_of demo_numerics fixed_subsystem \<lparr>parts = [[0, 1], [2]]\<rparr> =
     Inr \<lparr>ei = 0, mip_partition = \<lparr>parts = [[0, 1], [2]]\<rparr>\<rparr>"
proof -
  have n: "node_indices fixed_subsystem = [0, 1, 2]" by (simp add: fixed_subsystem_def)
  show "mip_of demo_numerics fixed_subsystem \<lparr>parts = [[0, 1, 2]]\<rparr> =
     Inr \<lparr>ei = 3, mip_partition = \<lparr>parts = [[0, 1, 2]]\<rparr>\<rparr>"
    unfolding mip_of_def effective_information_partition_def effective_information_def
    using posterior_fixed(1) prior_fixed entropy_fixed(1)
    by (simp add: n indices_def is_total_def Partition_len_def)
  show "mip_of demo_numerics fixed_subsystem \<lparr>parts = [[0], [1, 2]]\<rparr> =
     Inr \<lparr>ei = 0, mip_partition = \<lparr>parts = [[0], [1, 2]]\<rparr>\<rparr>"
    unfolding mip_of_def effective_information_partition_def
    using posterior_fixed(1) partitioned_posterior_fixed(1) entropy_fixed(2)
    by (simp add: n indices_def is_total_def Partition_len_def)
  show "mip_of demo_numerics fixed_subsystem \<lparr>parts = [[0, 2], [1]]\<rparr> =
     Inr \<lparr>ei = 0, mip_partition = \<lparr>parts = [[0, 2], [1]]\<rparr>\<rparr>"
    unfolding mip_of_def effective_information_partition_def
    using posterior_fixed(1) partitioned_posterior_fixed(2) entropy_fixed(2)
    by (simp add: n indices_def is_total_def Partition_len_def)
  show "mip_of demo_numerics fixed_subsystem \<lparr>parts = [[0, 1], [2]]\<rparr> =
     Inr \<lparr>ei = 0, mip_partition = \<lparr>parts = [[0, 1], [2]]\<rparr>\<rparr>"
    unfolding mip_of_def effective_information_partition_def
    using posterior_fixed(1) partitioned_posterior_fixed(3) entropy_fixed(2)
    by (simp add: n indices_def is_total_def Partition_len_def)
qed

lemma lt_key_fixed:
  "lt_key demo_numerics \<lparr>ei = 3, mip_partition = \<lparr>parts = [[0, 1, 2]]\<rparr>\<rparr> = Inr (1, 3)"
  "lt_key demo_numerics \<lparr>ei = 0, mip_partition = \<lparr>parts = [[0], [1, 2]]\<rparr>\<rparr> = Inr (0, 0)"
  "lt_key demo_numerics \<lparr>ei = 0, mip_partition = \<lparr>parts = [[0, 2], [1]]\<rparr>\<rparr> = Inr (0, 0)"
  "lt_key demo_numerics \<lparr>ei = 0, mip_partition = \<lparr>parts = [[0, 1], [2]]\<rparr>\<rparr> = Inr (0, 0)"
  by (simp_all add: lt_key_def ei_normalized_def normalization_def is_total_def
      Partition_len_def indices_def truediv_demo)

lemma find_mip_fixed:
  "find_mip demo_numerics fixed_subsystem =
     Inr \<lparr>ei = 0, mip_partition = \<lparr>parts = [[0], [1, 2]]\<rparr>\<rparr>"
proof -
  have n: "node_indices fixed_subsystem = [0, 1, 2]" by (simp add: fixed_subsystem_def)
  have l1: "Mip_lt demo_numerics \<lparr>ei = 0, mip_partition = \<lparr>parts = [[0], [1, 2]]\<rparr>\<rparr>
             \<lparr>ei = 3, mip_partition = \<lparr>parts = [[0, 1, 2]]\<rparr>\<rparr> = Inr True"
    unfolding Mip_lt_def lt_key_fixed by simp
  have l2: "Mip_lt demo_numerics \<lparr>ei = 0, mip_partition = \<lparr>parts = [[0, 2], [1]]\<rparr>\<rparr>
             \<lparr>ei = 0, mip_partition = \<lparr>parts = [[0], [1, 2]]\<rparr>\<rparr> = Inr False"
    unfolding Mip_lt_def lt_key_fixed by simp
  have l3: "Mip_lt demo_numerics \<lparr>ei = 0, mip_partition = \<lparr>parts = [[0, 1], [2]]\<rparr>\<rparr>
             \<lparr>ei = 0, mip_partition = \<lparr>parts = [[0], [1, 2]]\<rparr>\<rparr> = Inr False"
    unfolding Mip_lt_def lt_key_fixed by simp
  show ?thesis
    unfolding find_mip_def n generate_partitions_three
    using mip_of_fixed l1 l2 l3 by simp
qed

text \<open>
  C1. When \<open>find_mip\<close> returns a Mip, it is the Mip of a generated partition and no
  generated partition has a smaller pair (normalized effective information, effective
  information) in the lexicographic order; the normalized value is the raw one divided
  by the partition's normalization, as the float division gives it. \<open>find_mip\<close> does
  return for a non-empty node tuple in ascending order (otherwise the module's own
  assertion fails) on whose groups the collaborator answers. Of two Mips with the same
  normalized value, the one with the lower raw value is less than the other.
\<close>

theorem find_mip_minimum:
  "(find_mip N s = Inr m \<longrightarrow>
      (\<exists>p \<in> set (generate_partitions (node_indices s)). mip_of N s p = Inr m) \<and>
      (\<exists>n. normalization (mip_partition m) = Inr n \<and> 1 \<le> n \<and>
           ei_normalized N m = Inr (truediv N (ei m) n) \<and>
           lt_key N m = Inr (truediv N (ei m) n, ei m)) \<and>
      (\<forall>p \<in> set (generate_partitions (node_indices s)).
          \<exists>m' k k'. mip_of N s p = Inr m' \<and> lt_key N m = Inr k \<and> lt_key N m' = Inr k' \<and>
                    (fst k < fst k' \<or> (fst k = fst k' \<and> snd k \<le> snd k')))) \<and>
   (node_indices s \<noteq> [] \<and> sorted (node_indices s) \<and>
      (\<forall>q \<in> set (generate_partitions (node_indices s)).
          \<forall>g \<in> set (parts q). cause_repertoire s g g \<noteq> None) \<longrightarrow>
      (\<exists>m. find_mip N s = Inr m)) \<and>
   (ei_normalized N a = Inr x \<and> ei_normalized N b = Inr x \<and> ei a < ei b \<longrightarrow>
      Mip_lt N a b = Inr True \<and> Mip_lt N b a = Inr False)"
proof -
  have min: "find_mip N s = Inr m \<longrightarrow>
      (\<exists>p \<in> set (generate_partitions (node_indices s)). mip_of N s p = Inr m) \<and>
      (\<exists>n. normalization (mip_partition m) = Inr n \<and> 1 \<le> n \<and>
           ei_normalized N m = Inr (truediv N (ei m) n) \<and>
           lt_key N m = Inr (truediv N (ei m) n, ei m)) \<and>
      (\<forall>p \<in> set (generate_partitions (node_indices s)).
          \<exists>m' k k'. mip_of N s p = Inr m' \<and> lt_key N m = Inr k \<and> lt_key N m' = Inr k' \<and>
                    (fst k < fst k' \<or> (fst k = fst k' \<and> snd k \<le> snd k')))"
  proof
    assume f: "find_mip N s = Inr m"
    from find_mip_first[OF f] obtain pre p post where
      g: "generate_partitions (node_indices s) = pre @ p # post" and
      pm: "mip_of N s p = Inr m" and
      before: "\<forall>q \<in> set pre. \<exists>m'. mip_of N s q = Inr m' \<and> Mip_lt N m m' = Inr True" and
      after: "\<forall>q \<in> set post. \<exists>m'. mip_of N s q = Inr m' \<and> Mip_lt N m' m = Inr False"
      by blast
    from find_mip_key[OF f] obtain n where
      n: "normalization (mip_partition m) = Inr n" "1 \<le> n"
         "lt_key N m = Inr (truediv N (ei m) n, ei m)"
      by blast
    have en: "ei_normalized N m = Inr (truediv N (ei m) n)"
      using n(1,2) by (simp add: ei_normalized_def)
    have "\<exists>m' k k'. mip_of N s q = Inr m' \<and> lt_key N m = Inr k \<and> lt_key N m' = Inr k' \<and>
                    (fst k < fst k' \<or> (fst k = fst k' \<and> snd k \<le> snd k'))"
      if q: "q \<in> set (generate_partitions (node_indices s))" for q
    proof -
      from q g consider "q \<in> set pre" | "q = p" | "q \<in> set post" by auto
      then show ?thesis
      proof cases
        case 1
        with before obtain m' where "mip_of N s q = Inr m'" "Mip_lt N m m' = Inr True" by blast
        then show ?thesis unfolding Mip_lt_True_iff tuple_lt_iff by fastforce
      next
        case 2
        then show ?thesis using pm n(3) by auto
      next
        case 3
        with after obtain m' where "mip_of N s q = Inr m'" "Mip_lt N m' m = Inr False" by blast
        then show ?thesis unfolding Mip_lt_False_iff not_tuple_lt_iff by fastforce
      qed
    qed
    moreover have "\<exists>p \<in> set (generate_partitions (node_indices s)). mip_of N s p = Inr m"
      using g pm by auto
    ultimately show "(\<exists>p \<in> set (generate_partitions (node_indices s)). mip_of N s p = Inr m) \<and>
      (\<exists>n. normalization (mip_partition m) = Inr n \<and> 1 \<le> n \<and>
           ei_normalized N m = Inr (truediv N (ei m) n) \<and>
           lt_key N m = Inr (truediv N (ei m) n, ei m)) \<and>
      (\<forall>p \<in> set (generate_partitions (node_indices s)).
          \<exists>m' k k'. mip_of N s p = Inr m' \<and> lt_key N m = Inr k \<and> lt_key N m' = Inr k' \<and>
                    (fst k < fst k' \<or> (fst k = fst k' \<and> snd k \<le> snd k')))"
      using n en by blast
  qed
  have ret: "node_indices s \<noteq> [] \<and> sorted (node_indices s) \<and>
      (\<forall>q \<in> set (generate_partitions (node_indices s)).
          \<forall>g \<in> set (parts q). cause_repertoire s g g \<noteq> None) \<longrightarrow>
      (\<exists>m. find_mip N s = Inr m)"
    using find_mip_returns by blast
  have tie: "ei_normalized N a = Inr x \<and> ei_normalized N b = Inr x \<and> ei a < ei b \<longrightarrow>
      Mip_lt N a b = Inr True \<and> Mip_lt N b a = Inr False"
    by (auto simp: Mip_lt_def lt_key_def)
  from min ret tie show ?thesis by blast
qed

theorem find_mip_minimum_witness:
  "node_indices demo_subsystem \<noteq> [] \<and> sorted (node_indices demo_subsystem) \<and>
   find_mip demo_numerics demo_subsystem = Inr \<lparr>ei = 1, mip_partition = \<lparr>parts = [[0, 1]]\<rparr>\<rparr> \<and>
   lt_key demo_numerics \<lparr>ei = 1, mip_partition = \<lparr>parts = [[0, 1]]\<rparr>\<rparr> = Inr (1 / 2, 1) \<and>
   mip_of demo_numerics demo_subsystem \<lparr>parts = [[0], [1]]\<rparr> =
     Inr \<lparr>ei = 1, mip_partition = \<lparr>parts = [[0], [1]]\<rparr>\<rparr> \<and>
   lt_key demo_numerics \<lparr>ei = 1, mip_partition = \<lparr>parts = [[0], [1]]\<rparr>\<rparr> = Inr (1, 1) \<and>
   ei_normalized demo_numerics \<lparr>ei = 1 / 2, mip_partition = \<lparr>parts = [[0, 1]]\<rparr>\<rparr> =
     Inr (1 / 4) \<and>
   ei_normalized demo_numerics \<lparr>ei = 3 / 4, mip_partition = \<lparr>parts = [[0, 1, 2]]\<rparr>\<rparr> =
     Inr (1 / 4) \<and>
   Mip_lt demo_numerics \<lparr>ei = 1 / 2, mip_partition = \<lparr>parts = [[0, 1]]\<rparr>\<rparr>
          \<lparr>ei = 3 / 4, mip_partition = \<lparr>parts = [[0, 1, 2]]\<rparr>\<rparr> = Inr True \<and>
   Mip_lt demo_numerics \<lparr>ei = 3 / 4, mip_partition = \<lparr>parts = [[0, 1, 2]]\<rparr>\<rparr>
          \<lparr>ei = 1 / 2, mip_partition = \<lparr>parts = [[0, 1]]\<rparr>\<rparr> = Inr False"
proof -
  let ?a = "\<lparr>ei = 1 / 2, mip_partition = \<lparr>parts = [[0, 1]]\<rparr>\<rparr> :: real Mip_2_0"
  let ?b = "\<lparr>ei = 3 / 4, mip_partition = \<lparr>parts = [[0, 1, 2]]\<rparr>\<rparr> :: real Mip_2_0"
  let ?m = "\<lparr>ei = 1, mip_partition = \<lparr>parts = [[0, 1]]\<rparr>\<rparr> :: real Mip_2_0"
  have f: "find_mip demo_numerics demo_subsystem = Inr ?m" by (rule find_mip_demo)
  have n: "node_indices demo_subsystem = [0, 1]" by (simp add: demo_subsystem_def)
  have c: "\<forall>q \<in> set (generate_partitions (node_indices demo_subsystem)).
             \<forall>g \<in> set (parts q). cause_repertoire demo_subsystem g g \<noteq> None"
    unfolding n generate_partitions_two by (simp add: demo_subsystem_def)
  have ea: "ei_normalized demo_numerics ?a = Inr (1 / 4)"
    by (simp add: ei_normalized_def normalization_def is_total_def Partition_len_def
        indices_def truediv_demo)
  have eb: "ei_normalized demo_numerics ?b = Inr (1 / 4)"
    by (simp add: ei_normalized_def normalization_def is_total_def Partition_len_def
        indices_def truediv_demo)
  have lt: "ei ?a < ei ?b" by simp
  show ?thesis
    using f n c ea eb lt lt_key_demo mip_of_demo
      find_mip_minimum [of demo_numerics demo_subsystem ?m ?a "1 / 4" ?b]
    by simp
qed

text \<open>
  C10. For a non-empty node tuple in ascending order on whose groups the collaborator
  answers, \<open>find_mip\<close> returns, and the Mip it returns belongs to the first partition, in
  the order of \<open>generate_partitions\<close>, whose pair of keys is the smallest: every partition
  before it has a strictly larger pair and every partition after it has a pair at least
  as large.
\<close>

theorem find_mip_first_of_ties:
  "(node_indices s \<noteq> [] \<and> sorted (node_indices s) \<and>
      (\<forall>q \<in> set (generate_partitions (node_indices s)).
          \<forall>g \<in> set (parts q). cause_repertoire s g g \<noteq> None) \<longrightarrow>
      (\<exists>m. find_mip N s = Inr m)) \<and>
   (find_mip N s = Inr m \<longrightarrow>
      (\<exists>pre p post k. generate_partitions (node_indices s) = pre @ p # post \<and>
           mip_of N s p = Inr m \<and> lt_key N m = Inr k \<and>
           (\<forall>q \<in> set pre. \<exists>m' k'. mip_of N s q = Inr m' \<and> lt_key N m' = Inr k' \<and> k' \<noteq> k \<and>
               (fst k < fst k' \<or> (fst k = fst k' \<and> snd k < snd k'))) \<and>
           (\<forall>q \<in> set post. \<exists>m' k'. mip_of N s q = Inr m' \<and> lt_key N m' = Inr k' \<and>
               (fst k < fst k' \<or> (fst k = fst k' \<and> snd k \<le> snd k')))))"
proof -
  have ret: "node_indices s \<noteq> [] \<and> sorted (node_indices s) \<and>
      (\<forall>q \<in> set (generate_partitions (node_indices s)).
          \<forall>g \<in> set (parts q). cause_repertoire s g g \<noteq> None) \<longrightarrow>
      (\<exists>m. find_mip N s = Inr m)"
    using find_mip_returns by blast
  have first: "find_mip N s = Inr m \<longrightarrow>
      (\<exists>pre p post k. generate_partitions (node_indices s) = pre @ p # post \<and>
           mip_of N s p = Inr m \<and> lt_key N m = Inr k \<and>
           (\<forall>q \<in> set pre. \<exists>m' k'. mip_of N s q = Inr m' \<and> lt_key N m' = Inr k' \<and> k' \<noteq> k \<and>
               (fst k < fst k' \<or> (fst k = fst k' \<and> snd k < snd k'))) \<and>
           (\<forall>q \<in> set post. \<exists>m' k'. mip_of N s q = Inr m' \<and> lt_key N m' = Inr k' \<and>
               (fst k < fst k' \<or> (fst k = fst k' \<and> snd k \<le> snd k'))))"
  proof
    assume f: "find_mip N s = Inr m"
    from find_mip_first[OF f] obtain pre p post where
      g: "generate_partitions (node_indices s) = pre @ p # post" and
      pm: "mip_of N s p = Inr m" and
      before: "\<forall>q \<in> set pre. \<exists>m'. mip_of N s q = Inr m' \<and> Mip_lt N m m' = Inr True" and
      after: "\<forall>q \<in> set post. \<exists>m'. mip_of N s q = Inr m' \<and> Mip_lt N m' m = Inr False"
      by blast
    from find_mip_key[OF f] obtain k where k: "lt_key N m = Inr k" by blast
    have b: "\<forall>q \<in> set pre. \<exists>m' k'. mip_of N s q = Inr m' \<and> lt_key N m' = Inr k' \<and> k' \<noteq> k \<and>
               (fst k < fst k' \<or> (fst k = fst k' \<and> snd k < snd k'))"
    proof
      fix q assume "q \<in> set pre"
      with before obtain m' where "mip_of N s q = Inr m'" "Mip_lt N m m' = Inr True" by blast
      then show "\<exists>m' k'. mip_of N s q = Inr m' \<and> lt_key N m' = Inr k' \<and> k' \<noteq> k \<and>
               (fst k < fst k' \<or> (fst k = fst k' \<and> snd k < snd k'))"
        using k unfolding Mip_lt_True_iff tuple_lt_iff by fastforce
    qed
    have a: "\<forall>q \<in> set post. \<exists>m' k'. mip_of N s q = Inr m' \<and> lt_key N m' = Inr k' \<and>
               (fst k < fst k' \<or> (fst k = fst k' \<and> snd k \<le> snd k'))"
    proof
      fix q assume "q \<in> set post"
      with after obtain m' where "mip_of N s q = Inr m'" "Mip_lt N m' m = Inr False" by blast
      then show "\<exists>m' k'. mip_of N s q = Inr m' \<and> lt_key N m' = Inr k' \<and>
               (fst k < fst k' \<or> (fst k = fst k' \<and> snd k \<le> snd k'))"
        using k unfolding Mip_lt_False_iff not_tuple_lt_iff by fastforce
    qed
    from g pm k b a show "\<exists>pre p post k. generate_partitions (node_indices s) = pre @ p # post \<and>
           mip_of N s p = Inr m \<and> lt_key N m = Inr k \<and>
           (\<forall>q \<in> set pre. \<exists>m' k'. mip_of N s q = Inr m' \<and> lt_key N m' = Inr k' \<and> k' \<noteq> k \<and>
               (fst k < fst k' \<or> (fst k = fst k' \<and> snd k < snd k'))) \<and>
           (\<forall>q \<in> set post. \<exists>m' k'. mip_of N s q = Inr m' \<and> lt_key N m' = Inr k' \<and>
               (fst k < fst k' \<or> (fst k = fst k' \<and> snd k \<le> snd k')))"
      by blast
  qed
  from ret first show ?thesis by blast
qed

theorem find_mip_first_of_ties_witness:
  "node_indices fixed_subsystem \<noteq> [] \<and> sorted (node_indices fixed_subsystem) \<and>
   generate_partitions (node_indices fixed_subsystem) =
     [\<lparr>parts = [[0, 1, 2]]\<rparr>] @ \<lparr>parts = [[0], [1, 2]]\<rparr> #
     [\<lparr>parts = [[0, 2], [1]]\<rparr>, \<lparr>parts = [[0, 1], [2]]\<rparr>] \<and>
   find_mip demo_numerics fixed_subsystem =
     Inr \<lparr>ei = 0, mip_partition = \<lparr>parts = [[0], [1, 2]]\<rparr>\<rparr> \<and>
   mip_of demo_numerics fixed_subsystem \<lparr>parts = [[0], [1, 2]]\<rparr> =
     Inr \<lparr>ei = 0, mip_partition = \<lparr>parts = [[0], [1, 2]]\<rparr>\<rparr> \<and>
   lt_key demo_numerics \<lparr>ei = 0, mip_partition = \<lparr>parts = [[0], [1, 2]]\<rparr>\<rparr> = Inr (0, 0) \<and>
   mip_of demo_numerics fixed_subsystem \<lparr>parts = [[0, 1, 2]]\<rparr> =
     Inr \<lparr>ei = 3, mip_partition = \<lparr>parts = [[0, 1, 2]]\<rparr>\<rparr> \<and>
   lt_key demo_numerics \<lparr>ei = 3, mip_partition = \<lparr>parts = [[0, 1, 2]]\<rparr>\<rparr> = Inr (1, 3) \<and>
   mip_of demo_numerics fixed_subsystem \<lparr>parts = [[0, 2], [1]]\<rparr> =
     Inr \<lparr>ei = 0, mip_partition = \<lparr>parts = [[0, 2], [1]]\<rparr>\<rparr> \<and>
   lt_key demo_numerics \<lparr>ei = 0, mip_partition = \<lparr>parts = [[0, 2], [1]]\<rparr>\<rparr> = Inr (0, 0) \<and>
   mip_of demo_numerics fixed_subsystem \<lparr>parts = [[0, 1], [2]]\<rparr> =
     Inr \<lparr>ei = 0, mip_partition = \<lparr>parts = [[0, 1], [2]]\<rparr>\<rparr> \<and>
   lt_key demo_numerics \<lparr>ei = 0, mip_partition = \<lparr>parts = [[0, 1], [2]]\<rparr>\<rparr> = Inr (0, 0)"
proof -
  let ?m = "\<lparr>ei = 0, mip_partition = \<lparr>parts = [[0], [1, 2]]\<rparr>\<rparr> :: real Mip_2_0"
  have f: "find_mip demo_numerics fixed_subsystem = Inr ?m" by (rule find_mip_fixed)
  have n: "node_indices fixed_subsystem = [0, 1, 2]" by (simp add: fixed_subsystem_def)
  have c: "\<forall>q \<in> set (generate_partitions (node_indices fixed_subsystem)).
             \<forall>g \<in> set (parts q). cause_repertoire fixed_subsystem g g \<noteq> None"
    by (simp add: fixed_subsystem_def)
  show ?thesis
    using f n c generate_partitions_three mip_of_fixed lt_key_fixed
      find_mip_first_of_ties [of fixed_subsystem demo_numerics ?m]
    by simp
qed

text \<open>
  The failure of C7 reaches \<open>find_mip\<close>: on a non-empty node tuple that is not in
  ascending order it ends with the assertion failure of
  \<open>effective_information_partition\<close>, since the indices of the first partition are
  sorted and so differ from the node tuple.
\<close>

theorem find_mip_unsorted:
  assumes "node_indices s \<noteq> []" and "\<not> sorted (node_indices s)"
  shows "find_mip N s = Inl AssertionError"
proof -
  obtain p0 ps where g: "generate_partitions (node_indices s) = p0 # ps"
    using total_partition_generated[OF assms(1)]
    by (cases "generate_partitions (node_indices s)") auto
  then have "p0 \<in> set (generate_partitions (node_indices s))" by simp
  then have "indices p0 = sort (node_indices s)" by (rule indices_generated)
  moreover have "sort (node_indices s) \<noteq> node_indices s"
    using assms(2) by (metis sorted_sort)
  ultimately have "mip_of N s p0 = Inl AssertionError"
    by (simp add: mip_of_def effective_information_partition_def)
  then show ?thesis using g by (simp add: find_mip_def)
qed

theorem find_mip_unsorted_example:
  "find_mip demo_numerics (demo_subsystem\<lparr>node_indices := [1, 0]\<rparr>) = Inl AssertionError"
proof -
  have a: "node_indices (demo_subsystem\<lparr>node_indices := [1, 0]\<rparr>) \<noteq> []" by simp
  have b: "\<not> sorted (node_indices (demo_subsystem\<lparr>node_indices := [1, 0]\<rparr>))" by simp
  show ?thesis using find_mip_unsorted [OF a b, of demo_numerics] by simp
qed

end
